theory Spec2Isabelle
  imports
    Main
    "HOL-Library.AList"
    "HOL-Library.Char_ord"
    "HOL-Library.List_Lexorder"
    "HOL-Library.Sublist"
begin

section \<open>transform-csv: column classification, settings cache and lag expansion\<close>

text \<open>
  A shallow embedding of \<^verbatim>\<open>transform-csv.py\<close>. Python exceptions are values of
  \<open>error\<close>; a function that can raise returns \<open>error + 'a\<close> with \<open>Inl\<close> the exception.
\<close>

datatype error =
    KeyError
  | IndexError
  | ValueError
  | OSError
  | JSONDecodeError
  | CursesError
  | UnexpectedField string

subsection \<open>Data model\<close>

text \<open>The dataclass \<^verbatim>\<open>FieldsSetting\<close>: three lists of field names.\<close>

record FieldsSetting =
  all_fields :: "string list"
  fields_to_window :: "string list"
  fields_to_drop :: "string list"

text \<open>
  A table cell is text or the missing marker (\<^verbatim>\<open>None\<close>/\<^verbatim>\<open>NaN\<close>), since every table is
  read with \<^verbatim>\<open>dtype=str\<close>. A data frame is its row count (its index is the default
  \<^verbatim>\<open>RangeIndex\<close>, as \<^verbatim>\<open>read_csv\<close> and \<^verbatim>\<open>append(..., ignore_index=True)\<close> produce it)
  and its columns in order; a column name occurs at most once in a well-formed frame and
  every column has one cell per row.
\<close>

type_synonym cell = "string option"

record DataFrame =
  nrows :: nat
  columns :: "(string \<times> cell list) list"

definition wf_frame :: "DataFrame \<Rightarrow> bool" where
  "wf_frame df \<longleftrightarrow>
     distinct (map fst (columns df)) \<and>
     list_all (\<lambda>c. length (snd c) = nrows df) (columns df)"

text \<open>\<^verbatim>\<open>pd.DataFrame(dtype=str)\<close>: no rows, no columns.\<close>

definition empty_frame :: DataFrame where
  "empty_frame = \<lparr>nrows = 0, columns = []\<rparr>"

text \<open>\<^verbatim>\<open>df[f]\<close>: the column named \<open>f\<close>, or \<^verbatim>\<open>KeyError\<close>.\<close>

definition getitem :: "DataFrame \<Rightarrow> string \<Rightarrow> error + cell list" where
  "getitem df f = (case map_of (columns df) f of None \<Rightarrow> Inl KeyError | Some col \<Rightarrow> Inr col)"

text \<open>
  Aligning a series whose index is \<open>0..length s - 1\<close> with a frame of \<open>m\<close> rows
  (\<^verbatim>\<open>Series.reindex\<close>): rows the series has are taken, the others are missing.
\<close>

definition reindex :: "nat \<Rightarrow> cell list \<Rightarrow> cell list" where
  "reindex m s = take m s @ replicate (m - length s) None"

text \<open>
  \<^verbatim>\<open>df_new[key] = s\<close> for a series \<open>s\<close>. A frame whose index is still empty takes the
  index of the first non-empty value assigned to it, its existing columns being filled
  with the missing marker (pandas' \<^verbatim>\<open>_ensure_valid_index\<close>); the value is then aligned
  with the frame's index; the column replaces the one of that name where it stands, or is
  added at the end.
\<close>

definition setitem :: "DataFrame \<Rightarrow> string \<Rightarrow> cell list \<Rightarrow> DataFrame" where
  "setitem df key s =
     (let df1 = (if nrows df = 0 \<and> 0 < length s
                 then \<lparr>nrows = length s,
                       columns = map (\<lambda>c. (fst c, reindex (length s) (snd c))) (columns df)\<rparr>
                 else df)
      in df1\<lparr>columns := AList.update key (reindex (nrows df1) s) (columns df1)\<rparr>)"

subsection \<open>Lag expansion\<close>

text \<open>Python's \<^verbatim>\<open>str(i)\<close> for \<open>i \<ge> 0\<close>: the decimal digits.\<close>

definition digit_char :: "nat \<Rightarrow> char" where
  "digit_char d = char_of (48 + d)"

fun str_nat :: "nat \<Rightarrow> string" where
  "str_nat n = (if n < 10 then [digit_char n] else str_nat (n div 10) @ [digit_char (n mod 10)])"

declare str_nat.simps [simp del]

text \<open>The f-string \<^verbatim>\<open>f"{f}_T-{i}"\<close>.\<close>

definition lag_name :: "string \<Rightarrow> nat \<Rightarrow> string" where
  "lag_name f i = f @ ''_T-'' @ str_nat i"

text \<open>
  The slice \<^verbatim>\<open>s[:k]\<close> for a Python integer \<open>k\<close>: the first \<open>k\<close> elements, and for a
  negative \<open>k\<close> all but the last \<open>-k\<close>.
\<close>

definition slice_to :: "int \<Rightarrow> 'a list \<Rightarrow> 'a list" where
  "slice_to k xs = (if 0 \<le> k then take (nat k) xs else take (length xs - nat (- k)) xs)"

text \<open>
  \<^verbatim>\<open>pd.Series([None] * i, dtype=str).append(df[f][: len(df) - i], ignore_index=True)\<close>
\<close>

definition lag_series :: "DataFrame \<Rightarrow> cell list \<Rightarrow> nat \<Rightarrow> cell list" where
  "lag_series df col i = replicate i None @ slice_to (int (nrows df) - int i) col"

text \<open>\<^verbatim>\<open>range(n_lags)\<close> for a Python integer.\<close>

definition range_py :: "int \<Rightarrow> nat list" where
  "range_py n = [0..<nat n]"

text \<open>The inner loop \<^verbatim>\<open>for i in range(n_lags)\<close> of \<^verbatim>\<open>transform\<close>.\<close>

fun window_loop :: "DataFrame \<Rightarrow> string \<Rightarrow> nat list \<Rightarrow> DataFrame \<Rightarrow> error + DataFrame" where
  "window_loop df f [] df_new = Inr df_new"
| "window_loop df f (i # is) df_new =
     (case getitem df f of
        Inl e \<Rightarrow> Inl e
      | Inr col \<Rightarrow> window_loop df f is (setitem df_new (lag_name f i) (lag_series df col i)))"

text \<open>The outer loop \<^verbatim>\<open>for f in fields_setting.all_fields\<close>.\<close>

fun fields_loop ::
  "DataFrame \<Rightarrow> string set \<Rightarrow> string set \<Rightarrow> int \<Rightarrow> string list \<Rightarrow> DataFrame \<Rightarrow> error + DataFrame"
where
  "fields_loop df w d n_lags [] df_new = Inr df_new"
| "fields_loop df w d n_lags (f # fs) df_new =
     (if f \<in> w then
        (case window_loop df f (range_py n_lags) df_new of
           Inl e \<Rightarrow> Inl e
         | Inr df_new' \<Rightarrow> fields_loop df w d n_lags fs df_new')
      else if f \<in> d then fields_loop df w d n_lags fs df_new
      else
        (case getitem df f of
           Inl e \<Rightarrow> Inl e
         | Inr col \<Rightarrow> fields_loop df w d n_lags fs (setitem df_new f col)))"

definition transform :: "DataFrame \<Rightarrow> FieldsSetting \<Rightarrow> int \<Rightarrow> error + DataFrame" where
  "transform df fields_setting n_lags =
     fields_loop df (set (fields_to_window fields_setting)) (set (fields_to_drop fields_setting))
       n_lags (all_fields fields_setting) empty_frame"

subsection \<open>The settings cache\<close>

text \<open>
  A plain object is the JSON object of one classification; the cache is a JSON object from
  resolved paths to plain objects. Both are dictionaries in iteration order: lists of
  pairs, read with \<open>map_of\<close> and written with \<open>AList.update\<close>.
\<close>

type_synonym plain = "(string \<times> string list) list"
type_synonym cache = "(string \<times> plain) list"

text \<open>
  What reading the file at \<^verbatim>\<open>CACHE_PATH\<close> can meet: no file; a file that cannot be opened
  or read; a file whose text is not JSON; a file holding a cache object (given as
  \<^verbatim>\<open>json.loads\<close> returns it, keys in the order of the text).
\<close>

datatype cache_file = Missing | Unreadable | Corrupt | Stored cache

definition load_all_cache :: "cache_file \<Rightarrow> error + cache" where
  "load_all_cache file =
     (case file of
        Missing \<Rightarrow> Inr []
      | Unreadable \<Rightarrow> Inl OSError
      | Corrupt \<Rightarrow> Inl JSONDecodeError
      | Stored all_cache \<Rightarrow> Inr all_cache)"

text \<open>
  \<^verbatim>\<open>json.dumps(all_cache, indent=4, sort_keys=True)\<close> writes the keys of every object in
  sorted order, so that is the order a later \<^verbatim>\<open>json.loads\<close> returns. Python compares
  strings by code point, which is the lexicographic order of \<open>string\<close>.
\<close>

definition sort_keys :: "('v \<Rightarrow> 'v) \<Rightarrow> (string \<times> 'v) list \<Rightarrow> (string \<times> 'v) list" where
  "sort_keys inner obj = sort_key fst (map (\<lambda>kv. (fst kv, inner (snd kv))) obj)"

definition save_all_cache :: "cache \<Rightarrow> cache_file" where
  "save_all_cache all_cache = Stored (sort_keys (sort_keys id) all_cache)"

definition to_plain :: "FieldsSetting \<Rightarrow> plain" where
  "to_plain self =
     [(''all_fields'', all_fields self),
      (''fields_to_window'', fields_to_window self),
      (''fields_to_drop'', fields_to_drop self)]"

definition from_plain :: "plain \<Rightarrow> error + FieldsSetting" where
  "from_plain plain_obj =
     (case map_of plain_obj ''all_fields'' of
        None \<Rightarrow> Inl KeyError
      | Some a \<Rightarrow>
          (case map_of plain_obj ''fields_to_window'' of
             None \<Rightarrow> Inl KeyError
           | Some w \<Rightarrow>
               (case map_of plain_obj ''fields_to_drop'' of
                  None \<Rightarrow> Inl KeyError
                | Some d \<Rightarrow>
                    Inr \<lparr>all_fields = a, fields_to_window = w, fields_to_drop = d\<rparr>)))"

text \<open>
  A path is its text. \<^verbatim>\<open>Path.resolve()\<close> depends on the working directory and the
  links of the file system, so it is a parameter \<open>resolve\<close> of the functions that call
  it; \<^verbatim>\<open>.name\<close> of a resolved path is what follows its last separator.
\<close>

definition path_name :: "string \<Rightarrow> string" where
  "path_name p = rev (takeWhile (\<lambda>c. c \<noteq> CHR ''/'') (rev p))"

definition endswith :: "string \<Rightarrow> string \<Rightarrow> bool" where
  "endswith k filename \<longleftrightarrow> suffix filename k"

definition save_fields_setting ::
  "(string \<Rightarrow> string) \<Rightarrow> cache_file \<Rightarrow> string \<Rightarrow> FieldsSetting \<Rightarrow> error + cache_file" where
  "save_fields_setting resolve file input_file_path fields_setting =
     (let key = resolve input_file_path in
      case load_all_cache file of
        Inl e \<Rightarrow> Inl e
      | Inr all_cache \<Rightarrow>
          Inr (save_all_cache (AList.update key (to_plain fields_setting) all_cache)))"

text \<open>
  The loop \<^verbatim>\<open>for k in all_cache: if k.endswith(filename): return from_plain(all_cache[k])\<close>
  over the entries in iteration order; falling out of it returns \<^verbatim>\<open>None\<close>.
\<close>

fun scan_keys :: "cache \<Rightarrow> string \<Rightarrow> error + FieldsSetting option" where
  "scan_keys [] filename = Inr None"
| "scan_keys (kv # rest) filename =
     (if endswith (fst kv) filename then
        (case from_plain (snd kv) of Inl e \<Rightarrow> Inl e | Inr fs \<Rightarrow> Inr (Some fs))
      else scan_keys rest filename)"

definition load_fields_setting ::
  "(string \<Rightarrow> string) \<Rightarrow> cache_file \<Rightarrow> string \<Rightarrow> error + FieldsSetting option" where
  "load_fields_setting resolve file input_file_path =
     (let key = resolve input_file_path in
      case load_all_cache file of
        Inl e \<Rightarrow> Inl e
      | Inr all_cache \<Rightarrow>
          (case map_of all_cache key of
             Some plain_obj \<Rightarrow>
               (case from_plain plain_obj of Inl e \<Rightarrow> Inl e | Inr fs \<Rightarrow> Inr (Some fs))
           | None \<Rightarrow> scan_keys all_cache (path_name key)))"

subsection \<open>The interactive classification session\<close>

text \<open>
  The local state of \<^verbatim>\<open>configure_fields_settings_interactively\<close>: the field list, the
  three Python sets and the cursor.
\<close>

record Session =
  s_all_fields :: "string list"
  s_fields_to_window :: "string set"
  s_fields_to_drop :: "string set"
  s_fields_to_keep :: "string set"
  current_field_idx :: int

text \<open>The key codes of \<^verbatim>\<open>curses\<close> and the \<^verbatim>\<open>ord\<close> of the characters the loop tests.\<close>

definition KEY_DOWN :: int where "KEY_DOWN = 258"
definition KEY_UP :: int where "KEY_UP = 259"
definition KEY_ENTER :: int where "KEY_ENTER = 343"
definition ord_k :: int where "ord_k = 107"
definition ord_space :: int where "ord_space = 32"
definition ord_d :: int where "ord_d = 100"
definition ord_w :: int where "ord_w = 119"
definition ord_newline :: int where "ord_newline = 10"
definition ord_q :: int where "ord_q = 113"

definition go_down :: "Session \<Rightarrow> Session" where
  "go_down s =
     (if current_field_idx s < int (length (s_all_fields s)) - 1
      then s\<lparr>current_field_idx := current_field_idx s + 1\<rparr> else s)"

definition go_up :: "Session \<Rightarrow> Session" where
  "go_up s =
     (if 0 < current_field_idx s
      then s\<lparr>current_field_idx := current_field_idx s - 1\<rparr> else s)"

text \<open>\<^verbatim>\<open>xs[i]\<close> on a Python list: a negative index counts from the end.\<close>

definition list_index :: "'a list \<Rightarrow> int \<Rightarrow> error + 'a" where
  "list_index xs i =
     (if 0 \<le> i \<and> i < int (length xs) then Inr (xs ! nat i)
      else if i < 0 \<and> - int (length xs) \<le> i then Inr (xs ! nat (int (length xs) + i))
      else Inl IndexError)"

text \<open>What one pass of the \<^verbatim>\<open>if\<close>/\<^verbatim>\<open>elif\<close> chain on the key does.\<close>

datatype key_result = Proceed Session | Break | Exit

definition handle_key :: "Session \<Rightarrow> int \<Rightarrow> error + key_result" where
  "handle_key s key =
     (if key = KEY_DOWN then Inr (Proceed (go_down s))
      else if key = KEY_UP then Inr (Proceed (go_up s))
      else if key \<in> {ord_k} \<or> key = ord_space then
        (case list_index (s_all_fields s) (current_field_idx s) of
           Inl e \<Rightarrow> Inl e
         | Inr current_field \<Rightarrow>
             Inr (Proceed (go_down
               (s\<lparr>s_fields_to_window := s_fields_to_window s - {current_field},
                  s_fields_to_drop := s_fields_to_drop s - {current_field},
                  s_fields_to_keep := insert current_field (s_fields_to_keep s)\<rparr>))))
      else if key = ord_d then
        (case list_index (s_all_fields s) (current_field_idx s) of
           Inl e \<Rightarrow> Inl e
         | Inr current_field \<Rightarrow>
             Inr (Proceed (go_down
               (s\<lparr>s_fields_to_window := s_fields_to_window s - {current_field},
                  s_fields_to_drop := insert current_field (s_fields_to_drop s),
                  s_fields_to_keep := s_fields_to_keep s - {current_field}\<rparr>))))
      else if key = ord_w then
        (case list_index (s_all_fields s) (current_field_idx s) of
           Inl e \<Rightarrow> Inl e
         | Inr current_field \<Rightarrow>
             Inr (Proceed (go_down
               (s\<lparr>s_fields_to_window := insert current_field (s_fields_to_window s),
                  s_fields_to_drop := s_fields_to_drop s - {current_field},
                  s_fields_to_keep := s_fields_to_keep s - {current_field}\<rparr>))))
      else if key = KEY_ENTER \<or> key = ord_newline then Inr Break
      else if key = 27 \<or> key = ord_q then Inr Exit
      else Inr (Proceed s))"

text \<open>
  The pad that the fields are drawn on: \<^verbatim>\<open>pad_height\<close> rows and \<^verbatim>\<open>pad_width\<close> columns,
  computed from the field list before the loop.
\<close>

definition GUIDE_TEXT :: string where
  "GUIDE_TEXT =
     ''Configure fields settings: [w] Window  [d] Drop  [k] Keep  [ENTER] Proceed  [q] Quit''"

definition pad_width :: "string list \<Rightarrow> nat" where
  "pad_width names = max (length GUIDE_TEXT) (Max (set (map length names)) + 4)"

definition pad_height :: "string list \<Rightarrow> nat" where
  "pad_height names = length names + 2"

text \<open>
  \<^verbatim>\<open>pad.addstr(y, 0, text)\<close> raises when \<^verbatim>\<open>curses\<close> cannot write the text on the pad,
  as for a text that runs off the last row. What \<^verbatim>\<open>curses\<close> accepts is a parameter of
  the model: \<open>addstr h w y text\<close> holds if the call succeeds on a pad of \<open>h\<close> rows and
  \<open>w\<close> columns. The other calls of \<^verbatim>\<open>curses\<close> depend on the terminal only.
\<close>

type_synonym addstr = "nat \<Rightarrow> nat \<Rightarrow> nat \<Rightarrow> string \<Rightarrow> bool"

text \<open>
  The redraw: the guide text on row 0, then for the field of index \<open>i\<close> its flag, or the
  exception for a field that is in none of the three sets, and the line
  \<^verbatim>\<open>[flag] field\<close> written on row \<open>i + 1\<close>.
\<close>

definition field_flag :: "Session \<Rightarrow> string \<Rightarrow> error + string" where
  "field_flag s field =
     (if field \<in> s_fields_to_window s then Inr ''w''
      else if field \<in> s_fields_to_drop s then Inr ''d''
      else if field \<in> s_fields_to_keep s then Inr '' ''
      else Inl (UnexpectedField field))"

fun draw_fields :: "addstr \<Rightarrow> Session \<Rightarrow> nat \<Rightarrow> string list \<Rightarrow> error + unit" where
  "draw_fields addstr s i [] = Inr ()"
| "draw_fields addstr s i (field # more_fields) =
     (case field_flag s field of
        Inl e \<Rightarrow> Inl e
      | Inr flag \<Rightarrow>
          if addstr (pad_height (s_all_fields s)) (pad_width (s_all_fields s)) (i + 1)
               (''['' @ flag @ ''] '' @ field)
          then draw_fields addstr s (i + 1) more_fields
          else Inl CursesError)"

definition redraw :: "addstr \<Rightarrow> Session \<Rightarrow> error + unit" where
  "redraw addstr s =
     (if addstr (pad_height (s_all_fields s)) (pad_width (s_all_fields s)) 0 GUIDE_TEXT
      then draw_fields addstr s 0 (s_all_fields s)
      else Inl CursesError)"

text \<open>
  The \<^verbatim>\<open>while True\<close> loop on the keys that \<^verbatim>\<open>getch\<close> delivers. It ends with the
  session confirmed (\<^verbatim>\<open>break\<close>), with the process exited (\<^verbatim>\<open>exit()\<close>), or, the keys
  given being used up, blocked in \<^verbatim>\<open>getch\<close> in the state reached.
\<close>

datatype outcome = Confirmed Session | Exited | Waiting Session

fun event_loop :: "addstr \<Rightarrow> Session \<Rightarrow> int list \<Rightarrow> error + outcome" where
  "event_loop addstr s [] = Inr (Waiting s)"
| "event_loop addstr s (key # keys) =
     (case handle_key s key of
        Inl e \<Rightarrow> Inl e
      | Inr Break \<Rightarrow> Inr (Confirmed s)
      | Inr Exit \<Rightarrow> Inr Exited
      | Inr (Proceed s') \<Rightarrow>
          (case redraw addstr s' of
             Inl e \<Rightarrow> Inl e
           | Inr u \<Rightarrow> event_loop addstr s' keys))"

text \<open>
  The function up to its \<^verbatim>\<open>return\<close>. \<^verbatim>\<open>max(len(f) for f in all_fields)\<close> raises
  \<^verbatim>\<open>ValueError\<close> on an empty field list; the first pass of the loop has \<^verbatim>\<open>key = None\<close>
  and only draws.
\<close>

definition start_session :: "FieldsSetting \<Rightarrow> Session" where
  "start_session fields_setting =
     \<lparr>s_all_fields = all_fields fields_setting,
      s_fields_to_window = set (fields_to_window fields_setting),
      s_fields_to_drop = set (fields_to_drop fields_setting),
      s_fields_to_keep =
        set (all_fields fields_setting) - set (fields_to_window fields_setting)
          - set (fields_to_drop fields_setting),
      current_field_idx = 0\<rparr>"

definition configure_fields_settings_interactively ::
  "addstr \<Rightarrow> FieldsSetting \<Rightarrow> int list \<Rightarrow> error + outcome" where
  "configure_fields_settings_interactively addstr fields_setting keys =
     (if all_fields fields_setting = [] then Inl ValueError
      else
        (case redraw addstr (start_session fields_setting) of
           Inl e \<Rightarrow> Inl e
         | Inr u \<Rightarrow> event_loop addstr (start_session fields_setting) keys))"

section \<open>Vocabulary of the properties\<close>

subsection \<open>The derived table as the specification describes it\<close>

text \<open>The column list of a frame.\<close>

definition column_names :: "DataFrame \<Rightarrow> string list" where
  "column_names df = map fst (columns df)"

text \<open>
  The columns one field contributes: a windowed field its lag columns in increasing lag
  order, a dropped field none, a kept field itself; the expected column list follows the
  field order.
\<close>

definition spec_field_columns :: "string set \<Rightarrow> string set \<Rightarrow> int \<Rightarrow> string \<Rightarrow> string list" where
  "spec_field_columns w d n_lags f =
     (if f \<in> w then map (lag_name f) [0..<nat n_lags] else if f \<in> d then [] else [f])"

definition spec_columns :: "FieldsSetting \<Rightarrow> int \<Rightarrow> string list" where
  "spec_columns fs n_lags =
     concat (map (spec_field_columns (set (fields_to_window fs)) (set (fields_to_drop fs)) n_lags)
       (all_fields fs))"

text \<open>
  Every field that \<^verbatim>\<open>transform\<close> reads is a column of the source table; a kept field is
  a listed field that is neither windowed nor dropped.
\<close>

definition fields_present :: "DataFrame \<Rightarrow> FieldsSetting \<Rightarrow> bool" where
  "fields_present df fs \<longleftrightarrow>
     list_all (\<lambda>f. (f \<in> set (fields_to_window fs) \<or> f \<notin> set (fields_to_drop fs)) \<longrightarrow>
                   f \<in> set (column_names df)) (all_fields fs)"

definition is_kept :: "FieldsSetting \<Rightarrow> string \<Rightarrow> bool" where
  "is_kept fs f \<longleftrightarrow>
     f \<in> set (all_fields fs) \<and> f \<notin> set (fields_to_window fs) \<and> f \<notin> set (fields_to_drop fs)"

text \<open>
  The assignments \<^verbatim>\<open>df_new[name] = series\<close> that \<^verbatim>\<open>transform\<close> performs for one field, and
  the two ways of replaying a list of assignments: on a frame, and on a column list whose
  row count is already fixed.
\<close>

definition field_assignments ::
  "DataFrame \<Rightarrow> string set \<Rightarrow> string set \<Rightarrow> int \<Rightarrow> string \<Rightarrow> (string \<times> cell list) list" where
  "field_assignments df w d n_lags f =
     (case map_of (columns df) f of
        None \<Rightarrow> []
      | Some col \<Rightarrow>
          if f \<in> w then map (\<lambda>i. (lag_name f i, lag_series df col i)) (range_py n_lags)
          else if f \<in> d then [] else [(f, col)])"

definition assign :: "DataFrame \<Rightarrow> string \<times> cell list \<Rightarrow> DataFrame" where
  "assign acc p = setitem acc (fst p) (snd p)"

definition put :: "nat \<Rightarrow> (string \<times> cell list) list \<Rightarrow> string \<times> cell list \<Rightarrow> (string \<times> cell list) list" where
  "put m al p = AList.update (fst p) (reindex m (snd p)) al"

definition add_name :: "string list \<Rightarrow> string \<Rightarrow> string list" where
  "add_name ns k = (if k \<in> set ns then ns else ns @ [k])"

subsection \<open>Classifications and sessions\<close>

text \<open>
  The invariant of a classification: the windowed and the dropped fields are disjoint
  subsets of the field list.
\<close>

definition valid_classification :: "FieldsSetting \<Rightarrow> bool" where
  "valid_classification fs \<longleftrightarrow>
     set (fields_to_window fs) \<inter> set (fields_to_drop fs) = {} \<and>
     set (fields_to_window fs) \<subseteq> set (all_fields fs) \<and>
     set (fields_to_drop fs) \<subseteq> set (all_fields fs)"

text \<open>
  On a session: the cursor is an index of the field list; every field is in one of the
  three sets; the three sets partition the field list.
\<close>

definition cursor_ok :: "Session \<Rightarrow> bool" where
  "cursor_ok s \<longleftrightarrow> 0 \<le> current_field_idx s \<and> current_field_idx s < int (length (s_all_fields s))"

definition covered :: "Session \<Rightarrow> bool" where
  "covered s \<longleftrightarrow>
     set (s_all_fields s) \<subseteq> s_fields_to_window s \<union> s_fields_to_drop s \<union> s_fields_to_keep s"

definition partition_ok :: "Session \<Rightarrow> bool" where
  "partition_ok s \<longleftrightarrow>
     s_fields_to_window s \<inter> s_fields_to_drop s = {} \<and>
     s_fields_to_window s \<subseteq> set (s_all_fields s) \<and>
     s_fields_to_drop s \<subseteq> set (s_all_fields s) \<and>
     s_fields_to_keep s = set (s_all_fields s) - (s_fields_to_window s \<union> s_fields_to_drop s)"

text \<open>The state a run of the loop ends or waits in, if the process has not exited.\<close>

fun outcome_state :: "outcome \<Rightarrow> Session option" where
  "outcome_state (Confirmed s) = Some s"
| "outcome_state (Waiting s) = Some s"
| "outcome_state Exited = None"

section \<open>The lag expansion\<close>

subsection \<open>Column names\<close>

lemma column_names_setitem:
  "column_names (setitem df k s) = add_name (column_names df) k"
  by (simp add: column_names_def setitem_def Let_def add_name_def AList.update_keys comp_def
      image_image)

lemma window_loop_names:
  "window_loop df f is acc = Inr out \<Longrightarrow>
     column_names out = foldl add_name (column_names acc) (map (lag_name f) is)"
proof (induction "is" arbitrary: acc)
  case Nil
  then show ?case by simp
next
  case (Cons i "is")
  then show ?case
    by (auto split: sum.splits simp: column_names_setitem)
qed

lemma fields_loop_names:
  "fields_loop df w d n fs acc = Inr out \<Longrightarrow>
     column_names out =
       foldl add_name (column_names acc) (concat (map (spec_field_columns w d n) fs))"
proof (induction fs arbitrary: acc)
  case Nil
  then show ?case by simp
next
  case (Cons f fs)
  show ?case
  proof (cases "f \<in> w")
    case True
    with Cons.prems obtain acc' where
      w: "window_loop df f (range_py n) acc = Inr acc'" and
      r: "fields_loop df w d n fs acc' = Inr out"
      by (auto split: sum.splits)
    from Cons.IH [OF r] window_loop_names [OF w] True show ?thesis
      by (simp add: spec_field_columns_def range_py_def)
  next
    case False
    note nw = this
    show ?thesis
    proof (cases "f \<in> d")
      case True
      with nw Cons show ?thesis by (simp add: spec_field_columns_def)
    next
      case False
      with nw Cons.prems obtain col where
        g: "getitem df f = Inr col" and
        r: "fields_loop df w d n fs (setitem acc f col) = Inr out"
        by (auto split: sum.splits)
      from Cons.IH [OF r] nw False show ?thesis
        by (simp add: spec_field_columns_def column_names_setitem)
    qed
  qed
qed

lemma foldl_add_name_distinct:
  "distinct (ns @ ks) \<Longrightarrow> foldl add_name ns ks = ns @ ks"
  by (induction ks arbitrary: ns) (auto simp: add_name_def)

lemma set_foldl_add_name: "set (foldl add_name ns ks) = set ns \<union> set ks"
  by (induction ks arbitrary: ns) (auto simp: add_name_def)

lemma transform_names:
  assumes "transform df fs n = Inr out" and "distinct (spec_columns fs n)"
  shows "column_names out = spec_columns fs n"
  using fields_loop_names [OF assms(1) [unfolded transform_def]] assms(2)
  by (simp add: foldl_add_name_distinct spec_columns_def column_names_def empty_frame_def)

subsection \<open>The loops as a list of assignments\<close>

lemma window_loop_foldl:
  "getitem df f = Inr col \<Longrightarrow>
     window_loop df f is acc =
       Inr (foldl assign acc (map (\<lambda>i. (lag_name f i, lag_series df col i)) is))"
  by (induction "is" arbitrary: acc) (simp_all add: assign_def)

lemma window_loop_success:
  "window_loop df f is acc = Inr out \<Longrightarrow> is \<noteq> [] \<Longrightarrow> \<exists>col. getitem df f = Inr col"
  by (cases "is") (auto split: sum.splits)

lemma fields_loop_foldl:
  "fields_loop df w d n fs acc = Inr out \<Longrightarrow>
     out = foldl assign acc (concat (map (field_assignments df w d n) fs)) \<and>
     map fst (concat (map (field_assignments df w d n) fs)) =
       concat (map (spec_field_columns w d n) fs)"
proof (induction fs arbitrary: acc)
  case Nil
  then show ?case by simp
next
  case (Cons f fs)
  show ?case
  proof (cases "f \<in> w")
    case True
    with Cons.prems obtain acc' where
      w: "window_loop df f (range_py n) acc = Inr acc'" and
      r: "fields_loop df w d n fs acc' = Inr out"
      by (auto split: sum.splits)
    show ?thesis
    proof (cases "range_py n = []")
      case True
      with w have "acc' = acc" by simp
      with Cons.IH [OF r] True \<open>f \<in> w\<close> show ?thesis
        by (simp add: field_assignments_def spec_field_columns_def range_py_def
            split: option.splits)
    next
      case False
      from window_loop_success [OF w False] obtain col where g: "getitem df f = Inr col" ..
      then have m: "map_of (columns df) f = Some col"
        by (simp add: getitem_def split: option.splits)
      from w window_loop_foldl [OF g, of "range_py n" acc]
      have "acc' = foldl assign acc (map (\<lambda>i. (lag_name f i, lag_series df col i)) (range_py n))"
        by simp
      with Cons.IH [OF r] m \<open>f \<in> w\<close> show ?thesis
        by (simp add: field_assignments_def spec_field_columns_def range_py_def comp_def)
    qed
  next
    case False
    note nw = this
    show ?thesis
    proof (cases "f \<in> d")
      case True
      with nw Cons show ?thesis
        by (simp add: field_assignments_def spec_field_columns_def split: option.splits)
    next
      case False
      with nw Cons.prems obtain col where
        g: "getitem df f = Inr col" and
        r: "fields_loop df w d n fs (setitem acc f col) = Inr out"
        by (auto split: sum.splits)
      from g have m: "map_of (columns df) f = Some col"
        by (simp add: getitem_def split: option.splits)
      from Cons.IH [OF r] nw False m show ?thesis
        by (simp add: field_assignments_def spec_field_columns_def assign_def)
    qed
  qed
qed

lemma getitem_present:
  "f \<in> set (column_names df) \<Longrightarrow> \<exists>col. getitem df f = Inr col"
  by (cases "map_of (columns df) f") (auto simp: getitem_def column_names_def map_of_eq_None_iff)

lemma fields_loop_succeeds:
  "list_all (\<lambda>f. (f \<in> w \<or> f \<notin> d) \<longrightarrow> f \<in> set (column_names df)) fs \<Longrightarrow>
     \<exists>out. fields_loop df w d n fs acc = Inr out"
proof (induction fs arbitrary: acc)
  case Nil
  then show ?case by simp
next
  case (Cons f fs)
  then have rest: "\<And>acc'. \<exists>out. fields_loop df w d n fs acc' = Inr out" by simp
  show ?case
  proof (cases "f \<in> w \<or> f \<notin> d")
    case True
    with Cons.prems obtain col where g: "getitem df f = Inr col"
      using getitem_present by auto
    show ?thesis
      using rest by (simp add: g window_loop_foldl [OF g])
  next
    case False
    then show ?thesis using rest by simp
  qed
qed

lemma transform_succeeds:
  "fields_present df fs \<Longrightarrow> \<exists>out. transform df fs n = Inr out"
  unfolding transform_def fields_present_def by (rule fields_loop_succeeds)

lemma fields_loop_reads:
  "fields_loop df w d n fs acc = Inr out \<Longrightarrow> f \<in> set fs \<Longrightarrow>
     (f \<in> w \<and> range_py n \<noteq> []) \<or> (f \<notin> w \<and> f \<notin> d) \<Longrightarrow> \<exists>col. getitem df f = Inr col"
proof (induction fs arbitrary: acc)
  case Nil
  then show ?case by simp
next
  case (Cons g fs)
  show ?case
  proof (cases "g = f")
    case True
    with Cons.prems(1,3) show ?thesis
      by (cases "range_py n") (auto split: sum.splits if_splits)
  next
    case False
    with Cons.prems have "f \<in> set fs" by simp
    with Cons.prems(1,3) Cons.IH show ?thesis
      by (auto split: sum.splits if_splits)
  qed
qed

subsection \<open>Rows: a source table with at least one row fixes the row count\<close>

lemma setitem_rows:
  assumes "0 < m"
    and "nrows acc = m \<or> (nrows acc = 0 \<and> columns acc = [] \<and> length s = m)"
  shows "nrows (setitem acc k s) = m"
    and "columns (setitem acc k s) = AList.update k (reindex m s) (columns acc)"
  using assms by (auto simp: setitem_def Let_def)

lemma foldl_assign_rows:
  assumes "0 < m"
    and "nrows acc = m \<or>
         (nrows acc = 0 \<and> columns acc = [] \<and> (as = [] \<or> length (snd (hd as)) = m))"
  shows "columns (foldl assign acc as) = foldl (put m) (columns acc) as \<and>
         (as \<noteq> [] \<longrightarrow> nrows (foldl assign acc as) = m)"
  using assms(2)
proof (induction as arbitrary: acc)
  case Nil
  then show ?case by simp
next
  case (Cons p as)
  from Cons.prems have pre: "nrows acc = m \<or> (nrows acc = 0 \<and> columns acc = [] \<and> length (snd p) = m)"
    by auto
  have n: "nrows (assign acc p) = m" and c: "columns (assign acc p) = put m (columns acc) p"
    using setitem_rows [OF assms(1) pre, of "fst p"] by (simp_all add: assign_def put_def)
  from n have "nrows (assign acc p) = m \<or>
         (nrows (assign acc p) = 0 \<and> columns (assign acc p) = [] \<and>
          (as = [] \<or> length (snd (hd as)) = m))" ..
  from Cons.IH [OF this] have
    ih1: "columns (foldl assign (assign acc p) as) = foldl (put m) (columns (assign acc p)) as" and
    ih2: "as \<noteq> [] \<longrightarrow> nrows (foldl assign (assign acc p) as) = m"
    by simp_all
  have "nrows (foldl assign (assign acc p) as) = m"
  proof (cases "as = []")
    case True
    with n show ?thesis by simp
  next
    case False
    with ih2 show ?thesis by simp
  qed
  with ih1 c show ?case by simp
qed

lemma field_assignments_hd:
  assumes "wf_frame df"
  shows "field_assignments df w d n f = [] \<or>
         length (snd (hd (field_assignments df w d n f))) = nrows df"
proof (cases "map_of (columns df) f")
  case None
  then show ?thesis by (simp add: field_assignments_def)
next
  case (Some col)
  then have "(f, col) \<in> set (columns df)" by (rule map_of_SomeD)
  with assms have len: "length col = nrows df"
    by (auto simp: wf_frame_def list_all_iff)
  show ?thesis
  proof (cases "0 < nat n")
    case True
    then have "range_py n = 0 # [1..<nat n]"
      by (simp add: range_py_def upt_conv_Cons)
    with Some len show ?thesis
      by (simp add: field_assignments_def lag_series_def slice_to_def)
  next
    case False
    with Some len show ?thesis
      by (simp add: field_assignments_def range_py_def)
  qed
qed

lemma concat_assignments_rows:
  assumes "0 < nrows df" and "wf_frame df"
    and "nrows acc = nrows df \<or> (nrows acc = 0 \<and> columns acc = [])"
  shows "columns (foldl assign acc (concat (map (field_assignments df w d n) fs))) =
           foldl (put (nrows df)) (columns acc) (concat (map (field_assignments df w d n) fs)) \<and>
         (concat (map (field_assignments df w d n) fs) \<noteq> [] \<longrightarrow>
          nrows (foldl assign acc (concat (map (field_assignments df w d n) fs))) = nrows df)"
  using assms(3)
proof (induction fs arbitrary: acc)
  case Nil
  then show ?case by simp
next
  case (Cons f fs)
  define a where "a = field_assignments df w d n f"
  define rest where "rest = concat (map (field_assignments df w d n) fs)"
  define acc' where "acc' = foldl assign acc a"
  from Cons.prems field_assignments_hd [OF assms(2), of w d n f]
  have pre: "nrows acc = nrows df \<or>
         (nrows acc = 0 \<and> columns acc = [] \<and> (a = [] \<or> length (snd (hd a)) = nrows df))"
    unfolding a_def by auto
  from foldl_assign_rows [OF assms(1) pre] have
    s1: "columns acc' = foldl (put (nrows df)) (columns acc) a" and
    s2: "a \<noteq> [] \<longrightarrow> nrows acc' = nrows df"
    unfolding acc'_def by simp_all
  have nxt: "nrows acc' = nrows df \<or> (nrows acc' = 0 \<and> columns acc' = [])"
  proof (cases "a = []")
    case True
    with Cons.prems show ?thesis by (simp add: acc'_def)
  next
    case False
    with s2 show ?thesis by simp
  qed
  from Cons.IH [OF nxt] have
    i1: "columns (foldl assign acc' rest) = foldl (put (nrows df)) (columns acc') rest" and
    i2: "rest \<noteq> [] \<longrightarrow> nrows (foldl assign acc' rest) = nrows df"
    unfolding rest_def by simp_all
  have i3: "nrows (foldl assign acc' rest) = nrows df" if "a @ rest \<noteq> []"
  proof (cases "rest = []")
    case True
    with that s2 show ?thesis by simp
  next
    case False
    with i2 show ?thesis by simp
  qed
  have e: "concat (map (field_assignments df w d n) (f # fs)) = a @ rest"
    by (simp add: a_def rest_def)
  show ?case
    unfolding e using i1 s1 i3 by (simp add: acc'_def)
qed

lemma foldl_put_distinct:
  "distinct (map fst al @ map fst as) \<Longrightarrow>
     foldl (put m) al as = al @ map (\<lambda>p. (fst p, reindex m (snd p))) as"
proof (induction as arbitrary: al)
  case Nil
  then show ?case by simp
next
  case (Cons p as)
  from Cons.prems have "fst p \<notin> set (map fst al)" by auto
  then have u: "put m al p = al @ [(fst p, reindex m (snd p))]"
    by (induction al) (auto simp: put_def)
  from Cons.prems have "distinct (map fst (put m al p) @ map fst as)"
    by (auto simp: u)
  from Cons.IH [OF this] u show ?case by simp
qed

lemma transform_columns:
  assumes ok: "transform df fs n = Inr out"
    and wf: "wf_frame df" and rows: "0 < nrows df"
    and dist: "distinct (spec_columns fs n)"
  shows "columns out =
           map (\<lambda>p. (fst p, reindex (nrows df) (snd p)))
             (concat (map (field_assignments df (set (fields_to_window fs))
                (set (fields_to_drop fs)) n) (all_fields fs)))"
    and "map fst (concat (map (field_assignments df (set (fields_to_window fs))
                (set (fields_to_drop fs)) n) (all_fields fs))) = spec_columns fs n"
proof -
  let ?as = "concat (map (field_assignments df (set (fields_to_window fs))
                (set (fields_to_drop fs)) n) (all_fields fs))"
  from fields_loop_foldl [OF ok [unfolded transform_def]]
  have out: "out = foldl assign empty_frame ?as" and names: "map fst ?as = spec_columns fs n"
    by (simp_all add: spec_columns_def)
  have "columns (foldl assign empty_frame ?as) = foldl (put (nrows df)) (columns empty_frame) ?as"
    using concat_assignments_rows [OF rows wf, of empty_frame] by (simp add: empty_frame_def)
  with out have "columns out = foldl (put (nrows df)) [] ?as"
    by (simp add: empty_frame_def)
  also have "\<dots> = [] @ map (\<lambda>p. (fst p, reindex (nrows df) (snd p))) ?as"
    using dist names by (intro foldl_put_distinct) simp
  finally show "columns out = map (\<lambda>p. (fst p, reindex (nrows df) (snd p))) ?as" by simp
  show "map fst ?as = spec_columns fs n" by (rule names)
qed

lemma transform_lookup:
  assumes ok: "transform df fs n = Inr out"
    and wf: "wf_frame df" and rows: "0 < nrows df"
    and dist: "distinct (spec_columns fs n)"
    and f: "f \<in> set (all_fields fs)"
    and p: "p \<in> set (field_assignments df (set (fields_to_window fs)) (set (fields_to_drop fs)) n f)"
  shows "map_of (columns out) (fst p) = Some (reindex (nrows df) (snd p))"
proof -
  let ?as = "concat (map (field_assignments df (set (fields_to_window fs))
                (set (fields_to_drop fs)) n) (all_fields fs))"
  note c = transform_columns [OF ok wf rows dist]
  from f p have "p \<in> set ?as" by auto
  then have "(fst p, reindex (nrows df) (snd p)) \<in> set (columns out)"
    unfolding c(1) by force
  moreover have "map fst (columns out) = map fst ?as"
    unfolding c(1) by (simp add: comp_def)
  with c(2) dist have "distinct (map fst (columns out))" by simp
  ultimately show ?thesis by simp
qed

lemma wf_frame_length:
  "wf_frame df \<Longrightarrow> getitem df f = Inr col \<Longrightarrow> length col = nrows df"
  by (auto simp: wf_frame_def list_all_iff getitem_def split: option.splits dest!: map_of_SomeD)

lemma reindex_lag_series:
  assumes "length col = nrows df"
  shows "length (reindex (nrows df) (lag_series df col i)) = nrows df"
    and "r < nrows df \<Longrightarrow>
         reindex (nrows df) (lag_series df col i) ! r = (if r < i then None else col ! (r - i))"
proof -
  show "length (reindex (nrows df) (lag_series df col i)) = nrows df"
    by (simp add: reindex_def)
  assume r: "r < nrows df"
  show "reindex (nrows df) (lag_series df col i) ! r = (if r < i then None else col ! (r - i))"
  proof (cases "i \<le> nrows df")
    case True
    with assms have "lag_series df col i = replicate i None @ take (nrows df - i) col"
      by (simp add: lag_series_def slice_to_def nat_diff_distrib')
    with True assms r show ?thesis
      by (auto simp: reindex_def nth_append)
  next
    case False
    with r show ?thesis
      by (simp add: reindex_def lag_series_def nth_append)
  qed
qed

subsection \<open>Lists of pairwise distinct chunks\<close>

lemma distinct_concat_disjoint:
  "distinct (concat (map F xs)) \<Longrightarrow> g \<in> set xs \<Longrightarrow> h \<in> set xs \<Longrightarrow> g \<noteq> h \<Longrightarrow>
     set (F g) \<inter> set (F h) = {}"
  by (induction xs) auto

lemma filter_chunk:
  "distinct (concat (map F xs)) \<Longrightarrow> g \<in> set xs \<Longrightarrow>
     [c \<leftarrow> concat (map F xs). c \<in> set (F g)] = F g"
proof (induction xs)
  case Nil
  then show ?case by simp
next
  case (Cons x xs)
  from Cons.prems(1) have d: "distinct (F x)" "distinct (concat (map F xs))"
    and disj: "set (F x) \<inter> set (concat (map F xs)) = {}"
    by auto
  show ?case
  proof (cases "F g = []")
    case True
    then show ?thesis by simp
  next
    case False
    note ne = this
    show ?thesis
    proof (cases "x = g")
      case True
      have "[c \<leftarrow> concat (map F xs). c \<in> set (F g)] = []"
        using disj True by (auto simp: filter_empty_conv)
      with True show ?thesis by simp
    next
      case False
      with Cons.prems have gin: "g \<in> set xs" by simp
      then have "set (F g) \<subseteq> set (concat (map F xs))" by auto
      with disj have "[c \<leftarrow> F x. c \<in> set (F g)] = []"
        by (auto simp: filter_empty_conv)
      with Cons.IH [OF d(2) gin] show ?thesis by simp
    qed
  qed
qed

lemma filter_kept_columns:
  assumes dist: "distinct (spec_columns fs n)"
  shows "filter (is_kept fs) (spec_columns fs n) = filter (is_kept fs) (all_fields fs)"
proof -
  let ?F = "spec_field_columns (set (fields_to_window fs)) (set (fields_to_drop fs)) n"
  have chunk: "filter (is_kept fs) (?F g) = (if is_kept fs g then [g] else [])"
    if g: "g \<in> set (all_fields fs)" for g
  proof (cases "g \<in> set (fields_to_window fs)")
    case True
    have "\<not> is_kept fs c" if c: "c \<in> set (?F g)" for c
    proof
      assume k: "is_kept fs c"
      then have cin: "c \<in> set (all_fields fs)" and "c \<noteq> g" and fc: "?F c = [c]"
        using True by (auto simp: is_kept_def spec_field_columns_def)
      from distinct_concat_disjoint [OF dist [unfolded spec_columns_def] g cin] \<open>c \<noteq> g\<close>
      have "set (?F g) \<inter> set (?F c) = {}" by simp
      with c fc show False by simp
    qed
    then have "filter (is_kept fs) (?F g) = []"
      by (simp add: filter_empty_conv)
    with True show ?thesis by (simp add: is_kept_def)
  next
    case False
    with g show ?thesis by (simp add: is_kept_def spec_field_columns_def)
  qed
  have "filter (is_kept fs) (concat (map ?F xs)) = filter (is_kept fs) xs"
    if "set xs \<subseteq> set (all_fields fs)" for xs
    using that by (induction xs) (simp_all add: chunk)
  then show ?thesis by (simp add: spec_columns_def)
qed

subsection \<open>Lag columns\<close>

text \<open>
  C1 (amended). Let the source table be well formed with at least one row, let every field
  that is read be one of its columns, and let the column names that the classification
  generates be pairwise distinct. Then for \<open>n_lags \<ge> 1\<close> every windowed field \<open>f\<close> of the
  field list yields exactly the \<open>n_lags\<close> columns \<open>f_T-0\<close>, ..., \<open>f_T-(n_lags - 1)\<close>, once
  each and in this order; the column of lag \<open>i\<close> has as many rows as the source table,
  its first \<open>i\<close> rows are missing and every row \<open>r \<ge> i\<close> holds the source value of row
  \<open>r - i\<close>.
\<close>

theorem lag_columns:
  assumes "fields_present df fs" and "wf_frame df" and "0 < nrows df"
    and "distinct (spec_columns fs n_lags)" and "1 \<le> n_lags"
    and "f \<in> set (all_fields fs)" and "f \<in> set (fields_to_window fs)"
  shows "\<exists>out col. transform df fs n_lags = Inr out \<and> getitem df f = Inr col \<and>
           [c \<leftarrow> column_names out. c \<in> set (map (lag_name f) [0..<nat n_lags])] =
             map (lag_name f) [0..<nat n_lags] \<and>
           distinct (map (lag_name f) [0..<nat n_lags]) \<and>
           (\<forall>i < nat n_lags. \<exists>c. getitem out (lag_name f i) = Inr c \<and>
              length c = nrows df \<and>
              (\<forall>r < nrows df. c ! r = (if r < i then None else col ! (r - i))))"
proof -
  let ?w = "set (fields_to_window fs)" and ?d = "set (fields_to_drop fs)"
  from transform_succeeds [OF assms(1)] obtain out where ok: "transform df fs n_lags = Inr out" ..
  from assms(5) have ne: "range_py n_lags \<noteq> []" by (simp add: range_py_def)
  from fields_loop_reads [OF ok [unfolded transform_def] assms(6)] assms(7) ne
  obtain col where g: "getitem df f = Inr col" by auto
  then have m: "map_of (columns df) f = Some col"
    by (simp add: getitem_def split: option.splits)
  have len: "length col = nrows df" by (rule wf_frame_length [OF assms(2) g])
  have sf: "spec_field_columns ?w ?d n_lags f = map (lag_name f) [0..<nat n_lags]"
    using assms(7) by (simp add: spec_field_columns_def)
  have names: "column_names out = spec_columns fs n_lags"
    by (rule transform_names [OF ok assms(4)])
  have filt: "[c \<leftarrow> column_names out. c \<in> set (map (lag_name f) [0..<nat n_lags])] =
             map (lag_name f) [0..<nat n_lags]"
    using filter_chunk [OF assms(4) [unfolded spec_columns_def] assms(6)]
    unfolding names spec_columns_def sf .
  have "set (map (lag_name f) [0..<nat n_lags]) \<subseteq> set (spec_columns fs n_lags)"
    using assms(6) sf by (auto simp: spec_columns_def)
  have dl: "distinct (map (lag_name f) [0..<nat n_lags])"
    using filt distinct_filter [of "column_names out"] names assms(4) by metis
  have cells: "\<exists>c. getitem out (lag_name f i) = Inr c \<and> length c = nrows df \<and>
              (\<forall>r < nrows df. c ! r = (if r < i then None else col ! (r - i)))"
    if i: "i < nat n_lags" for i
  proof -
    have "(lag_name f i, lag_series df col i) \<in> set (field_assignments df ?w ?d n_lags f)"
      using i m assms(7) by (auto simp: field_assignments_def range_py_def)
    from transform_lookup [OF ok assms(2,3,4,6) this]
    have "getitem out (lag_name f i) = Inr (reindex (nrows df) (lag_series df col i))"
      by (simp add: getitem_def)
    with reindex_lag_series [OF len] show ?thesis by simp
  qed
  from ok g filt dl cells show ?thesis by blast
qed

text \<open>The example of the specification: \<open>A = [1, 2, 3]\<close> with two lags.\<close>

theorem lag_columns_witness:
  "fields_present \<lparr>nrows = 3, columns = [(''A'', [Some ''1'', Some ''2'', Some ''3''])]\<rparr>
     \<lparr>all_fields = [''A''], fields_to_window = [''A''], fields_to_drop = []\<rparr> \<and>
   wf_frame \<lparr>nrows = 3, columns = [(''A'', [Some ''1'', Some ''2'', Some ''3''])]\<rparr> \<and>
   distinct (spec_columns
     \<lparr>all_fields = [''A''], fields_to_window = [''A''], fields_to_drop = []\<rparr> 2) \<and>
   (\<exists>out. transform \<lparr>nrows = 3, columns = [(''A'', [Some ''1'', Some ''2'', Some ''3''])]\<rparr>
       \<lparr>all_fields = [''A''], fields_to_window = [''A''], fields_to_drop = []\<rparr> 2 = Inr out \<and>
     getitem out (lag_name ''A'' 0) = Inr [Some ''1'', Some ''2'', Some ''3''] \<and>
     getitem out (lag_name ''A'' 1) = Inr [None, Some ''1'', Some ''2''])"
proof -
  let ?df = "\<lparr>nrows = 3, columns = [(''A'', [Some ''1'', Some ''2'', Some ''3''])]\<rparr>"
  let ?fs = "\<lparr>all_fields = [''A''], fields_to_window = [''A''], fields_to_drop = []\<rparr>"
  let ?out = "\<lparr>nrows = 3, columns =
    [(''A_T-0'', [Some ''1'', Some ''2'', Some ''3'']),
     (''A_T-1'', [None, Some ''1'', Some ''2''])]\<rparr>"
  have h1: "fields_present ?df ?fs" by code_simp
  have h2: "wf_frame ?df" by code_simp
  have h3: "0 < nrows ?df" by simp
  have h4: "distinct (spec_columns ?fs 2)" by code_simp
  have h5: "(1::int) \<le> 2" by simp
  have h6: "''A'' \<in> set (all_fields ?fs)" by simp
  have h7: "''A'' \<in> set (fields_to_window ?fs)" by simp
  from lag_columns [OF h1 h2 h3 h4 h5 h6 h7]
  obtain out where tr: "transform ?df ?fs 2 = Inr out" by blast
  have ev: "transform ?df ?fs 2 = Inr ?out" by code_simp
  from tr ev have o: "out = ?out" by simp
  have c0: "getitem ?out (lag_name ''A'' 0) = Inr [Some ''1'', Some ''2'', Some ''3'']"
    by code_simp
  have c1: "getitem ?out (lag_name ''A'' 1) = Inr [None, Some ''1'', Some ''2'']"
    by code_simp
  have g0: "getitem out (lag_name ''A'' 0) = Inr [Some ''1'', Some ''2'', Some ''3'']"
    by (simp only: o c0)
  have g1: "getitem out (lag_name ''A'' 1) = Inr [None, Some ''1'', Some ''2'']"
    by (simp only: o c1)
  from tr g0 g1 have "transform ?df ?fs 2 = Inr out \<and>
     getitem out (lag_name ''A'' 0) = Inr [Some ''1'', Some ''2'', Some ''3''] \<and>
     getitem out (lag_name ''A'' 1) = Inr [None, Some ''1'', Some ''2'']"
    by (intro conjI)
  then have "\<exists>out. transform ?df ?fs 2 = Inr out \<and>
     getitem out (lag_name ''A'' 0) = Inr [Some ''1'', Some ''2'', Some ''3''] \<and>
     getitem out (lag_name ''A'' 1) = Inr [None, Some ''1'', Some ''2'']"
    by (rule exI [where x = out])
  with h1 h2 h4 show ?thesis by (intro conjI)
qed

text \<open>
  C1 as stated fails where a kept field bears the name of a lag column: with the fields
  \<open>A\<close> (windowed) and \<open>A_T-0\<close> (kept), the later assignment of the kept column replaces
  the lag column, so the column named \<open>A_T-0\<close> holds the values of the source column
  \<open>A_T-0\<close> and not those of \<open>A\<close>.
\<close>

theorem lag_columns_counterexample:
  "transform \<lparr>nrows = 1, columns = [(''A'', [Some ''1'']), (''A_T-0'', [Some ''2''])]\<rparr>
     \<lparr>all_fields = [''A'', ''A_T-0''], fields_to_window = [''A''], fields_to_drop = []\<rparr> 1
     = Inr \<lparr>nrows = 1, columns = [(''A_T-0'', [Some ''2''])]\<rparr> \<and>
   lag_name ''A'' 0 = ''A_T-0'' \<and>
   getitem \<lparr>nrows = 1, columns = [(''A'', [Some ''1'']), (''A_T-0'', [Some ''2''])]\<rparr> ''A''
     = Inr [Some ''1'']"
  by (intro conjI; code_simp)

text \<open>
  A source table without rows is left out of the statement above: there the second lag
  column, one missing cell long, gives the still empty output frame its index, and the
  output has one row where the source has none.
\<close>

lemma zero_row_table_gains_row:
  "transform \<lparr>nrows = 0, columns = [(''A'', [])]\<rparr>
     \<lparr>all_fields = [''A''], fields_to_window = [''A''], fields_to_drop = []\<rparr> 2
   = Inr \<lparr>nrows = 1, columns = [(''A_T-0'', [None]), (''A_T-1'', [None])]\<rparr>"
  by code_simp

subsection \<open>Column order\<close>

text \<open>
  C2 (amended). Let every field that is read be a column of the source table and let the
  generated column names be pairwise distinct. Then the column list of the derived table
  is the field list in its order, a kept field standing for itself, a dropped field for
  nothing and a windowed field for its lag columns in increasing lag order; the name of
  a dropped field occurs in the output only as a lag column of a windowed field.
\<close>

theorem column_order:
  assumes "fields_present df fs" and "distinct (spec_columns fs n_lags)"
  shows "\<exists>out. transform df fs n_lags = Inr out \<and>
           column_names out = spec_columns fs n_lags \<and>
           (\<forall>f \<in> set (column_names out).
              f \<in> set (fields_to_drop fs) \<and> f \<notin> set (fields_to_window fs) \<longrightarrow>
              (\<exists>g \<in> set (all_fields fs). g \<in> set (fields_to_window fs) \<and>
                 f \<in> set (map (lag_name g) [0..<nat n_lags])))"
proof -
  from transform_succeeds [OF assms(1)] obtain out where ok: "transform df fs n_lags = Inr out" ..
  have names: "column_names out = spec_columns fs n_lags"
    by (rule transform_names [OF ok assms(2)])
  have "\<exists>g \<in> set (all_fields fs). g \<in> set (fields_to_window fs) \<and>
                 f \<in> set (map (lag_name g) [0..<nat n_lags])"
    if "f \<in> set (spec_columns fs n_lags)" "f \<in> set (fields_to_drop fs)"
      "f \<notin> set (fields_to_window fs)" for f
    using that by (auto simp: spec_columns_def spec_field_columns_def split: if_splits)
  with ok names show ?thesis by auto
qed

theorem column_order_witness:
  "fields_present
     \<lparr>nrows = 1, columns = [(''A'', [Some ''1'']), (''B'', [Some ''2'']), (''C'', [Some ''3''])]\<rparr>
     \<lparr>all_fields = [''A'', ''B'', ''C''], fields_to_window = [''A''], fields_to_drop = [''B'']\<rparr> \<and>
   distinct (spec_columns
     \<lparr>all_fields = [''A'', ''B'', ''C''], fields_to_window = [''A''], fields_to_drop = [''B'']\<rparr> 2) \<and>
   (\<exists>out. transform
       \<lparr>nrows = 1, columns = [(''A'', [Some ''1'']), (''B'', [Some ''2'']), (''C'', [Some ''3''])]\<rparr>
       \<lparr>all_fields = [''A'', ''B'', ''C''], fields_to_window = [''A''], fields_to_drop = [''B'']\<rparr> 2
       = Inr out \<and>
     column_names out = [''A_T-0'', ''A_T-1'', ''C''])"
proof -
  let ?df = "\<lparr>nrows = 1,
    columns = [(''A'', [Some ''1'']), (''B'', [Some ''2'']), (''C'', [Some ''3''])]\<rparr>"
  let ?fs = "\<lparr>all_fields = [''A'', ''B'', ''C''], fields_to_window = [''A''],
    fields_to_drop = [''B'']\<rparr>"
  have h1: "fields_present ?df ?fs" by code_simp
  have h2: "distinct (spec_columns ?fs 2)" by code_simp
  have sc: "spec_columns ?fs 2 = [''A_T-0'', ''A_T-1'', ''C'']" by code_simp
  from column_order [OF h1 h2]
  obtain out where "transform ?df ?fs 2 = Inr out \<and> column_names out = spec_columns ?fs 2"
    by blast
  then have "transform ?df ?fs 2 = Inr out \<and> column_names out = [''A_T-0'', ''A_T-1'', ''C'']"
    unfolding sc .
  then have "\<exists>out. transform ?df ?fs 2 = Inr out \<and>
      column_names out = [''A_T-0'', ''A_T-1'', ''C'']"
    by (rule exI [where x = out])
  with h1 h2 show ?thesis by (intro conjI)
qed

text \<open>
  C2 as stated fails on the same collision of names: the fields \<open>x\<close> (windowed) and
  \<open>x_T-0\<close> (kept) give one output column, where the field order with each field replaced
  by its columns lists two.
\<close>

theorem column_order_counterexample:
  "transform
     \<lparr>nrows = 2, columns = [(''x'', [Some ''1'', Some ''2'']), (''x_T-0'', [Some ''a'', Some ''b''])]\<rparr>
     \<lparr>all_fields = [''x'', ''x_T-0''], fields_to_window = [''x''], fields_to_drop = []\<rparr> 1
     = Inr \<lparr>nrows = 2, columns = [(''x_T-0'', [Some ''a'', Some ''b''])]\<rparr> \<and>
   column_names \<lparr>nrows = 2, columns = [(''x_T-0'', [Some ''a'', Some ''b''])]\<rparr> = [''x_T-0''] \<and>
   spec_columns
     \<lparr>all_fields = [''x'', ''x_T-0''], fields_to_window = [''x''], fields_to_drop = []\<rparr> 1
     = [''x_T-0'', ''x_T-0'']"
  by (intro conjI; code_simp)

subsection \<open>Kept fields\<close>

text \<open>
  C3 (amended). Let the source table be well formed with at least one row, let every field
  that is read be one of its columns, and let the generated column names be pairwise
  distinct. Then the kept fields occur in the derived table in the order of the field
  list, and each of them names a column of the source table and holds the same cells in
  the derived table.
\<close>

theorem kept_fields_unchanged:
  assumes "fields_present df fs" and "wf_frame df" and "0 < nrows df"
    and "distinct (spec_columns fs n_lags)"
  shows "\<exists>out. transform df fs n_lags = Inr out \<and>
           filter (is_kept fs) (column_names out) = filter (is_kept fs) (all_fields fs) \<and>
           (\<forall>f \<in> set (all_fields fs). is_kept fs f \<longrightarrow>
              getitem out f = getitem df f \<and> f \<in> set (column_names df))"
proof -
  let ?w = "set (fields_to_window fs)" and ?d = "set (fields_to_drop fs)"
  from transform_succeeds [OF assms(1)] obtain out where ok: "transform df fs n_lags = Inr out" ..
  have names: "column_names out = spec_columns fs n_lags"
    by (rule transform_names [OF ok assms(4)])
  have order: "filter (is_kept fs) (column_names out) = filter (is_kept fs) (all_fields fs)"
    unfolding names by (rule filter_kept_columns [OF assms(4)])
  have same: "getitem out f = getitem df f \<and> f \<in> set (column_names df)"
    if f: "f \<in> set (all_fields fs)" and k: "is_kept fs f" for f
  proof -
    from k have nw: "f \<notin> ?w" and nd: "f \<notin> ?d" by (simp_all add: is_kept_def)
    from assms(1) f nd have pres: "f \<in> set (column_names df)"
      by (auto simp: fields_present_def list_all_iff)
    then obtain col where g: "getitem df f = Inr col"
      using getitem_present by blast
    then have m: "map_of (columns df) f = Some col"
      by (simp add: getitem_def split: option.splits)
    have len: "length col = nrows df" by (rule wf_frame_length [OF assms(2) g])
    have "(f, col) \<in> set (field_assignments df ?w ?d n_lags f)"
      using m nw nd by (simp add: field_assignments_def)
    from transform_lookup [OF ok assms(2,3,4) f this] len
    have "getitem out f = Inr col"
      by (simp add: getitem_def reindex_def)
    with g pres show ?thesis by simp
  qed
  from ok order same show ?thesis by blast
qed

theorem kept_fields_unchanged_witness:
  "fields_present
     \<lparr>nrows = 2, columns = [(''id'', [Some ''7'', Some ''8'']), (''v'', [Some ''a'', Some ''b''])]\<rparr>
     \<lparr>all_fields = [''id'', ''v''], fields_to_window = [''v''], fields_to_drop = []\<rparr> \<and>
   wf_frame
     \<lparr>nrows = 2, columns = [(''id'', [Some ''7'', Some ''8'']), (''v'', [Some ''a'', Some ''b''])]\<rparr> \<and>
   distinct (spec_columns
     \<lparr>all_fields = [''id'', ''v''], fields_to_window = [''v''], fields_to_drop = []\<rparr> 2) \<and>
   is_kept \<lparr>all_fields = [''id'', ''v''], fields_to_window = [''v''], fields_to_drop = []\<rparr> ''id'' \<and>
   (\<exists>out. transform
       \<lparr>nrows = 2, columns = [(''id'', [Some ''7'', Some ''8'']), (''v'', [Some ''a'', Some ''b''])]\<rparr>
       \<lparr>all_fields = [''id'', ''v''], fields_to_window = [''v''], fields_to_drop = []\<rparr> 2 = Inr out \<and>
     getitem out ''id'' = Inr [Some ''7'', Some ''8''])"
proof -
  let ?df = "\<lparr>nrows = 2,
    columns = [(''id'', [Some ''7'', Some ''8'']), (''v'', [Some ''a'', Some ''b''])]\<rparr>"
  let ?fs = "\<lparr>all_fields = [''id'', ''v''], fields_to_window = [''v''], fields_to_drop = []\<rparr>"
  have h1: "fields_present ?df ?fs" by code_simp
  have h2: "wf_frame ?df" by code_simp
  have h3: "0 < nrows ?df" by simp
  have h4: "distinct (spec_columns ?fs 2)" by code_simp
  have k: "is_kept ?fs ''id''" by code_simp
  have m: "''id'' \<in> set (all_fields ?fs)" by simp
  have g: "getitem ?df ''id'' = Inr [Some ''7'', Some ''8'']" by code_simp
  from kept_fields_unchanged [OF h1 h2 h3 h4]
  obtain out where tr: "transform ?df ?fs 2 = Inr out"
    and same: "\<forall>f \<in> set (all_fields ?fs). is_kept ?fs f \<longrightarrow>
                 getitem out f = getitem ?df f \<and> f \<in> set (column_names ?df)"
    by blast
  from same m k have "getitem out ''id'' = getitem ?df ''id''" by blast
  with g tr have "transform ?df ?fs 2 = Inr out \<and> getitem out ''id'' = Inr [Some ''7'', Some ''8'']"
    by simp
  then have "\<exists>out. transform ?df ?fs 2 = Inr out \<and>
      getitem out ''id'' = Inr [Some ''7'', Some ''8'']"
    by (rule exI [where x = out])
  with h1 h2 h4 k show ?thesis by (intro conjI)
qed

text \<open>
  C3 as stated fails where a lag column is generated under the name of a kept field that
  precedes it: the kept column \<open>A_T-0\<close> is overwritten by lag 0 of \<open>A\<close>.
\<close>

theorem kept_fields_unchanged_counterexample:
  "is_kept \<lparr>all_fields = [''A_T-0'', ''A''], fields_to_window = [''A''], fields_to_drop = []\<rparr>
     ''A_T-0'' \<and>
   transform \<lparr>nrows = 1, columns = [(''A_T-0'', [Some ''2'']), (''A'', [Some ''1''])]\<rparr>
     \<lparr>all_fields = [''A_T-0'', ''A''], fields_to_window = [''A''], fields_to_drop = []\<rparr> 1
     = Inr \<lparr>nrows = 1, columns = [(''A_T-0'', [Some ''1''])]\<rparr> \<and>
   getitem \<lparr>nrows = 1, columns = [(''A_T-0'', [Some ''2'']), (''A'', [Some ''1''])]\<rparr> ''A_T-0''
     = Inr [Some ''2'']"
  by (intro conjI; code_simp)

subsection \<open>A field both windowed and dropped\<close>

lemma fields_loop_drop_irrelevant:
  "f \<in> w \<Longrightarrow> fields_loop df w (d - {f}) n fs acc = fields_loop df w d n fs acc"
  by (induction fs arbitrary: acc) (auto split: sum.splits)

text \<open>
  C10. A field that is listed both as windowed and as dropped is treated as windowed: the
  result is the one obtained with the field taken out of the dropped list, and, the field
  being in the field list, the derived table has its lag columns.
\<close>

theorem window_precedes_drop:
  assumes "f \<in> set (fields_to_window fs)" and "f \<in> set (fields_to_drop fs)"
  shows "transform df fs n_lags =
           transform df (fs\<lparr>fields_to_drop := removeAll f (fields_to_drop fs)\<rparr>) n_lags \<and>
         (\<forall>out. transform df fs n_lags = Inr out \<and> f \<in> set (all_fields fs) \<longrightarrow>
            set (map (lag_name f) [0..<nat n_lags]) \<subseteq> set (column_names out))"
proof -
  have a: "transform df fs n_lags =
           transform df (fs\<lparr>fields_to_drop := removeAll f (fields_to_drop fs)\<rparr>) n_lags"
    using fields_loop_drop_irrelevant [OF assms(1), of df "set (fields_to_drop fs)"]
    by (simp add: transform_def)
  have b: "set (map (lag_name f) [0..<nat n_lags]) \<subseteq> set (column_names out)"
    if ok: "transform df fs n_lags = Inr out" and f: "f \<in> set (all_fields fs)" for out
  proof -
    from fields_loop_names [OF ok [unfolded transform_def]]
    have "set (column_names out) = set (spec_columns fs n_lags)"
      by (simp add: set_foldl_add_name spec_columns_def column_names_def empty_frame_def)
    moreover have "set (map (lag_name f) [0..<nat n_lags]) \<subseteq> set (spec_columns fs n_lags)"
      using f assms(1) by (auto simp: spec_columns_def spec_field_columns_def)
    ultimately show ?thesis by simp
  qed
  from a b show ?thesis by blast
qed

theorem window_precedes_drop_witness:
  "''A'' \<in> set (fields_to_window
      \<lparr>all_fields = [''A''], fields_to_window = [''A''], fields_to_drop = [''A'']\<rparr>) \<and>
   ''A'' \<in> set (fields_to_drop
      \<lparr>all_fields = [''A''], fields_to_window = [''A''], fields_to_drop = [''A'']\<rparr>) \<and>
   transform \<lparr>nrows = 2, columns = [(''A'', [Some ''1'', Some ''2''])]\<rparr>
     \<lparr>all_fields = [''A''], fields_to_window = [''A''], fields_to_drop = [''A'']\<rparr> 2
     = Inr \<lparr>nrows = 2, columns =
         [(''A_T-0'', [Some ''1'', Some ''2'']), (''A_T-1'', [None, Some ''1''])]\<rparr> \<and>
   transform \<lparr>nrows = 2, columns = [(''A'', [Some ''1'', Some ''2''])]\<rparr>
     \<lparr>all_fields = [''A''], fields_to_window = [''A''], fields_to_drop = []\<rparr> 2
     = Inr \<lparr>nrows = 2, columns =
         [(''A_T-0'', [Some ''1'', Some ''2'']), (''A_T-1'', [None, Some ''1''])]\<rparr>"
proof -
  let ?df = "\<lparr>nrows = 2, columns = [(''A'', [Some ''1'', Some ''2''])]\<rparr>"
  let ?fs = "\<lparr>all_fields = [''A''], fields_to_window = [''A''], fields_to_drop = [''A'']\<rparr>"
  let ?out = "\<lparr>nrows = 2, columns =
         [(''A_T-0'', [Some ''1'', Some ''2'']), (''A_T-1'', [None, Some ''1''])]\<rparr>"
  have h1: "''A'' \<in> set (fields_to_window ?fs)" by simp
  have h2: "''A'' \<in> set (fields_to_drop ?fs)" by simp
  have ev: "transform ?df ?fs 2 = Inr ?out" by code_simp
  from window_precedes_drop [OF h1 h2, of ?df 2]
  have "transform ?df ?fs 2 =
      transform ?df (?fs\<lparr>fields_to_drop := removeAll ''A'' (fields_to_drop ?fs)\<rparr>) 2"
    by (rule conjunct1)
  then have "transform ?df ?fs 2 =
      transform ?df \<lparr>all_fields = [''A''], fields_to_window = [''A''], fields_to_drop = []\<rparr> 2"
    by simp
  with ev have "transform ?df
      \<lparr>all_fields = [''A''], fields_to_window = [''A''], fields_to_drop = []\<rparr> 2 = Inr ?out"
    by simp
  with h1 h2 ev show ?thesis by (intro conjI)
qed

section \<open>The settings cache\<close>

lemma map_of_filter_hd:
  "map_of xs k = (case filter (\<lambda>y. fst y = k) xs of [] \<Rightarrow> None | y # _ \<Rightarrow> Some (snd y))"
  by (induction xs) auto

lemma map_of_sort_key: "map_of (sort_key fst xs) k = map_of xs k"
  by (simp only: map_of_filter_hd [of _ k] sort_key_stable)

lemma map_of_sort_keys:
  "map_of (sort_keys inner obj) k = map_option inner (map_of obj k)"
proof -
  have "map_of (map (\<lambda>kv. (fst kv, inner (snd kv))) obj) k = map_option inner (map_of obj k)"
    by (induction obj) auto
  then show ?thesis by (simp add: sort_keys_def map_of_sort_key)
qed

lemma from_plain_sort_keys: "from_plain (sort_keys id p) = from_plain p"
proof -
  have h: "map_of (sort_keys id p) = map_of p"
    by (rule ext) (simp add: map_of_sort_keys option.map_id)
  show ?thesis unfolding from_plain_def h ..
qed

lemma from_plain_to_plain: "from_plain (to_plain fs) = Inr fs"
  by (simp add: from_plain_def to_plain_def)

lemma load_after_save:
  assumes "save_fields_setting resolve file p fs = Inr file'"
  shows "load_fields_setting resolve file' p = Inr (Some fs)"
proof -
  from assms obtain c where c: "load_all_cache file = Inr c"
    and f: "file' = save_all_cache (AList.update (resolve p) (to_plain fs) c)"
    by (auto simp: save_fields_setting_def Let_def split: sum.splits)
  have "map_of (sort_keys (sort_keys id) (AList.update (resolve p) (to_plain fs) c)) (resolve p)
          = Some (sort_keys id (to_plain fs))"
    by (simp add: map_of_sort_keys AList.update_conv')
  then show ?thesis
    by (simp add: f save_all_cache_def load_fields_setting_def load_all_cache_def
        from_plain_sort_keys from_plain_to_plain)
qed

lemma scan_keys_first:
  assumes "\<forall>kv \<in> set pre. \<not> endswith (fst kv) filename" and "endswith k filename"
  shows "scan_keys (pre @ (k, v) # post) filename =
           (case from_plain v of Inl e \<Rightarrow> Inl e | Inr fs \<Rightarrow> Inr (Some fs))"
  using assms by (induction pre) simp_all

lemma endswith_path_name: "endswith p (path_name p)"
proof -
  have "prefix (takeWhile (\<lambda>c. c \<noteq> CHR ''/'') (rev p)) (rev p)"
    by (rule takeWhile_is_prefix)
  then show ?thesis
    by (simp add: endswith_def path_name_def suffix_to_prefix)
qed

lemma sort_keys_facts:
  "sorted (map fst (sort_keys inner obj))"
  "distinct (map fst obj) \<Longrightarrow> distinct (map fst (sort_keys inner obj))"
  "fst ` set (sort_keys inner obj) = fst ` set obj"
proof -
  let ?m = "map (\<lambda>kv. (fst kv, inner (snd kv))) obj"
  show "sorted (map fst (sort_keys inner obj))"
    unfolding sort_keys_def by (rule sorted_sort_key)
  have mf: "map fst ?m = map fst obj" by simp
  show "distinct (map fst (sort_keys inner obj))" if "distinct (map fst obj)"
  proof -
    from that have "distinct (map fst ?m)" by (simp add: comp_def)
    then show ?thesis
      unfolding sort_keys_def by (simp only: distinct_map distinct_sort set_sort)
  qed
  show "fst ` set (sort_keys inner obj) = fst ` set obj"
    by (force simp: sort_keys_def)
qed

subsection \<open>Reading the cache file\<close>

text \<open>
  C5 (amended). If the cache file is missing, loading behaves as with an empty cache and
  returns no classification without an error; a cache file that cannot be read, or whose
  text is not JSON, makes loading raise.
\<close>

theorem missing_cache_is_empty:
  "load_fields_setting resolve Missing p = Inr None \<and>
   load_fields_setting resolve Missing p = load_fields_setting resolve (Stored []) p \<and>
   load_fields_setting resolve Unreadable p = Inl OSError \<and>
   load_fields_setting resolve Corrupt p = Inl JSONDecodeError"
  by (simp add: load_fields_setting_def load_all_cache_def)

text \<open>
  C5 as stated fails for a corrupt cache file: loading raises, where an empty cache
  gives no classification and no error.
\<close>

theorem missing_cache_is_empty_counterexample:
  "load_fields_setting id Corrupt ''/a/b/data.csv'' = Inl JSONDecodeError \<and>
   load_fields_setting id (Stored []) ''/a/b/data.csv'' = Inr None"
  by (simp add: load_fields_setting_def load_all_cache_def)

subsection \<open>The fallback on the file name\<close>

lemma from_plain_error: "from_plain v = Inl e \<Longrightarrow> e = KeyError"
  by (auto simp: from_plain_def split: option.splits)

lemma first_match_least:
  assumes srt: "sorted (map fst xs)"
    and sp: "xs = pre @ kv # post"
    and np: "\<forall>y \<in> set pre. \<not> P (fst y)"
    and k': "k' \<in> fst ` set xs" and pk: "P k'"
  shows "fst kv \<le> k'"
proof -
  from k' obtain y where y: "y \<in> set xs" and fy: "fst y = k'" by auto
  from y sp have "y \<in> set pre \<or> y = kv \<or> y \<in> set post" by auto
  then show ?thesis
  proof (elim disjE)
    assume "y \<in> set pre"
    with np fy pk show ?thesis by auto
  next
    assume "y = kv"
    with fy show ?thesis by simp
  next
    assume "y \<in> set post"
    with srt fy show ?thesis by (auto simp: sp sorted_append)
  qed
qed

text \<open>
  C6 (amended). Let the cache file be readable, with pairwise distinct keys and entries
  that have the three lists, and let a classification be saved under a path, then loaded
  under another path with the same base name whose resolved form is not a key of the
  cache. Then loading returns a classification and not the absent value: the one stored
  under the least key, which is the first key in the sorted order of the saved file, that
  ends with the base name. It is the saved classification if no key of the cache that
  sorts before the saved key also ends with the base name.
\<close>

theorem cache_fallback:
  assumes rd: "load_all_cache file = Inr c"
    and dc: "distinct (map fst c)"
    and wfc: "\<forall>kv \<in> set c. from_plain (snd kv) \<noteq> Inl KeyError"
    and same: "path_name (resolve pa) = path_name (resolve pb)"
    and ne: "resolve pb \<noteq> resolve pa"
    and nk: "resolve pb \<notin> fst ` set c"
  shows "\<exists>file' k fs'.
           save_fields_setting resolve file pa fs = Inr file' \<and>
           load_fields_setting resolve file' pb = Inr (Some fs') \<and>
           k \<in> insert (resolve pa) (fst ` set c) \<and>
           endswith k (path_name (resolve pb)) \<and>
           (\<forall>k' \<in> insert (resolve pa) (fst ` set c).
              endswith k' (path_name (resolve pb)) \<longrightarrow> k \<le> k') \<and>
           (if k = resolve pa then fs' = fs
            else \<exists>v. map_of c k = Some v \<and> from_plain v = Inr fs') \<and>
           ((\<forall>k' \<in> fst ` set c. endswith k' (path_name (resolve pb)) \<longrightarrow> \<not> k' < resolve pa) \<longrightarrow>
              fs' = fs)"
proof -
  define ka where "ka = resolve pa"
  define c1 where "c1 = AList.update ka (to_plain fs) c"
  define c' where "c' = sort_keys (sort_keys id) c1"
  define fn where "fn = path_name (resolve pb)"
  have sv: "save_fields_setting resolve file pa fs = Inr (Stored c')"
    by (simp add: save_fields_setting_def rd save_all_cache_def c'_def c1_def ka_def)
  have keys1: "fst ` set c1 = insert ka (fst ` set c)"
    by (simp add: c1_def AList.dom_update)
  have keys: "fst ` set c' = insert ka (fst ` set c)"
    by (simp add: c'_def sort_keys_facts(3) keys1)
  have d1: "distinct (map fst c1)"
    unfolding c1_def using dc by (rule AList.distinct_update)
  have d': "distinct (map fst c')" and s': "sorted (map fst c')"
    unfolding c'_def using d1 by (simp_all add: sort_keys_facts)
  from ne nk keys have "map_of c' (resolve pb) = None"
    by (simp add: map_of_eq_None_iff ka_def)
  then have ld: "load_fields_setting resolve (Stored c') pb = scan_keys c' fn"
    by (simp add: load_fields_setting_def load_all_cache_def fn_def)
  have ea: "endswith ka fn"
    unfolding fn_def ka_def same [symmetric] by (rule endswith_path_name)
  have "ka \<in> fst ` set c'" by (simp add: keys)
  then obtain kva where "kva \<in> set c'" and "fst kva = ka" by auto
  with ea have "\<exists>kv \<in> set c'. endswith (fst kv) fn" by auto
  then obtain pre kv post where sp: "c' = pre @ kv # post"
    and pk: "endswith (fst kv) fn" and np: "\<forall>y \<in> set pre. \<not> endswith (fst y) fn"
    by (auto simp: split_list_first_prop_iff)
  define k where "k = fst kv"
  define v where "v = snd kv"
  have kv: "kv = (k, v)" by (simp add: k_def v_def)
  have sc: "scan_keys c' fn = (case from_plain v of Inl e \<Rightarrow> Inl e | Inr fs' \<Rightarrow> Inr (Some fs'))"
    unfolding sp kv using np pk [unfolded kv fst_conv] by (rule scan_keys_first)
  have kin: "k \<in> insert ka (fst ` set c)"
    unfolding keys [symmetric] by (force simp: sp kv)
  have least: "k \<le> k'" if "k' \<in> insert ka (fst ` set c)" and "endswith k' fn" for k'
  proof -
    from that(1) have kk: "k' \<in> fst ` set c'" by (simp only: keys)
    from first_match_least [where P = "\<lambda>x. endswith x fn", OF s' sp np kk that(2)]
    show ?thesis by (simp add: k_def)
  qed
  from sp kv have "(k, v) \<in> set c'" by simp
  with d' have mk: "map_of c' k = Some v" by simp
  have m1: "map_of c' k = map_option (sort_keys id) (map_of c1 k)"
    unfolding c'_def by (rule map_of_sort_keys)
  have val: "\<exists>fs'. from_plain v = Inr fs' \<and>
      (if k = ka then fs' = fs else \<exists>v0. map_of c k = Some v0 \<and> from_plain v0 = Inr fs')"
  proof (cases "k = ka")
    case True
    then have "map_of c1 k = Some (to_plain fs)"
      by (simp add: c1_def AList.update_conv')
    with mk m1 have "v = sort_keys id (to_plain fs)" by simp
    then have "from_plain v = Inr fs"
      by (simp add: from_plain_sort_keys from_plain_to_plain)
    with True show ?thesis by simp
  next
    case False
    then have e: "map_of c1 k = map_of c k"
      by (simp add: c1_def AList.update_conv')
    with mk m1 obtain v0 where v0: "map_of c k = Some v0" and vv: "v = sort_keys id v0"
      by (cases "map_of c k") auto
    from v0 have "(k, v0) \<in> set c" by (rule map_of_SomeD)
    with wfc have nke: "from_plain v0 \<noteq> Inl KeyError" by force
    have "\<exists>fs0. from_plain v0 = Inr fs0"
    proof (cases "from_plain v0")
      case (Inl e)
      with from_plain_error [OF Inl] nke show ?thesis by simp
    next
      case (Inr fs0)
      then show ?thesis by blast
    qed
    then obtain fs0 where f0: "from_plain v0 = Inr fs0" ..
    with vv have "from_plain v = Inr fs0" by (simp add: from_plain_sort_keys)
    with False v0 f0 show ?thesis by auto
  qed
  then obtain fs' where fv: "from_plain v = Inr fs'"
    and src: "if k = ka then fs' = fs else \<exists>v0. map_of c k = Some v0 \<and> from_plain v0 = Inr fs'"
    by blast
  from ld sc fv have ld': "load_fields_setting resolve (Stored c') pb = Inr (Some fs')"
    by simp
  have own: "fs' = fs"
    if h: "\<forall>k' \<in> fst ` set c. endswith k' fn \<longrightarrow> \<not> k' < ka"
  proof -
    have "k = ka"
    proof (rule ccontr)
      assume n: "k \<noteq> ka"
      with kin have kc: "k \<in> fst ` set c" by simp
      from least [of ka] ea have "k \<le> ka" by simp
      with n have "k < ka" by simp
      moreover from pk have "endswith k fn" by (simp add: k_def)
      ultimately show False using h kc by blast
    qed
    with src show ?thesis by simp
  qed
  from pk have pk': "endswith k fn" by (simp add: k_def)
  have "save_fields_setting resolve file pa fs = Inr (Stored c') \<and>
           load_fields_setting resolve (Stored c') pb = Inr (Some fs') \<and>
           k \<in> insert ka (fst ` set c) \<and>
           endswith k fn \<and>
           (\<forall>k' \<in> insert ka (fst ` set c). endswith k' fn \<longrightarrow> k \<le> k') \<and>
           (if k = ka then fs' = fs
            else \<exists>v. map_of c k = Some v \<and> from_plain v = Inr fs') \<and>
           ((\<forall>k' \<in> fst ` set c. endswith k' fn \<longrightarrow> \<not> k' < ka) \<longrightarrow> fs' = fs)"
    using sv ld' kin pk' least src own by blast
  then show ?thesis
    unfolding ka_def fn_def by blast
qed

theorem cache_fallback_witness:
  "load_all_cache (Stored [(''/m/other.csv'', to_plain
       \<lparr>all_fields = [''z''], fields_to_window = [], fields_to_drop = []\<rparr>)])
     = Inr [(''/m/other.csv'', to_plain
       \<lparr>all_fields = [''z''], fields_to_window = [], fields_to_drop = []\<rparr>)] \<and>
   path_name (id ''/a/b/data.csv'') = path_name (id ''/x/y/data.csv'') \<and>
   (\<exists>file'. save_fields_setting id (Stored [(''/m/other.csv'', to_plain
          \<lparr>all_fields = [''z''], fields_to_window = [], fields_to_drop = []\<rparr>)])
        ''/a/b/data.csv''
        \<lparr>all_fields = [''a''], fields_to_window = [''a''], fields_to_drop = []\<rparr> = Inr file' \<and>
      load_fields_setting id file' ''/x/y/data.csv''
        = Inr (Some \<lparr>all_fields = [''a''], fields_to_window = [''a''], fields_to_drop = []\<rparr>))"
proof -
  let ?z = "\<lparr>all_fields = [''z''], fields_to_window = [], fields_to_drop = []\<rparr>"
  let ?c = "[(''/m/other.csv'', to_plain ?z)]"
  let ?fs = "\<lparr>all_fields = [''a''], fields_to_window = [''a''], fields_to_drop = []\<rparr>"
  have h1: "load_all_cache (Stored ?c) = Inr ?c" by (simp add: load_all_cache_def)
  have h2: "distinct (map fst ?c)" by simp
  have h3: "\<forall>kv \<in> set ?c. from_plain (snd kv) \<noteq> Inl KeyError"
    by (simp add: from_plain_to_plain)
  have h4: "path_name (id ''/a/b/data.csv'') = path_name (id ''/x/y/data.csv'')"
    by (simp add: path_name_def)
  have h5: "id ''/x/y/data.csv'' \<noteq> id ''/a/b/data.csv''" by simp
  have h6: "id ''/x/y/data.csv'' \<notin> fst ` set ?c" by simp
  have h7: "\<forall>k' \<in> fst ` set ?c. endswith k' (path_name (id ''/x/y/data.csv'')) \<longrightarrow>
      \<not> k' < id ''/a/b/data.csv''"
    by (simp add: path_name_def endswith_def suffix_to_prefix)
  from cache_fallback [of "Stored ?c" ?c id "''/a/b/data.csv''" "''/x/y/data.csv''" ?fs,
      OF h1 h2 h3 h4 h5 h6]
  obtain file' k fs' where
    sv: "save_fields_setting id (Stored ?c) ''/a/b/data.csv'' ?fs = Inr file'" and
    ld: "load_fields_setting id file' ''/x/y/data.csv'' = Inr (Some fs')" and
    own: "(\<forall>k' \<in> fst ` set ?c. endswith k' (path_name (id ''/x/y/data.csv'')) \<longrightarrow>
             \<not> k' < id ''/a/b/data.csv'') \<longrightarrow> fs' = ?fs"
    by blast
  from own h7 have "fs' = ?fs" by (rule mp)
  with sv ld have "save_fields_setting id (Stored ?c) ''/a/b/data.csv'' ?fs = Inr file' \<and>
      load_fields_setting id file' ''/x/y/data.csv'' = Inr (Some ?fs)"
    by simp
  then have "\<exists>file'. save_fields_setting id (Stored ?c) ''/a/b/data.csv'' ?fs = Inr file' \<and>
      load_fields_setting id file' ''/x/y/data.csv'' = Inr (Some ?fs)"
    by (rule exI [where x = file'])
  with h1 h4 show ?thesis by (intro conjI)
qed

text \<open>
  C6 as stated fails when the cache holds another key with the same base name that sorts
  before the saved one: the classification of that key is returned.
\<close>

theorem cache_fallback_counterexample:
  "save_fields_setting id
     (Stored [(''/a/a/data.csv'',
        to_plain \<lparr>all_fields = [''a''], fields_to_window = [''a''], fields_to_drop = []\<rparr>)])
     ''/a/b/data.csv'' \<lparr>all_fields = [''a''], fields_to_window = [], fields_to_drop = [''a'']\<rparr>
     = Inr (Stored
        [(''/a/a/data.csv'',
          [(''all_fields'', [''a'']), (''fields_to_drop'', []), (''fields_to_window'', [''a''])]),
         (''/a/b/data.csv'',
          [(''all_fields'', [''a'']), (''fields_to_drop'', [''a'']), (''fields_to_window'', [])])]) \<and>
   load_fields_setting id
     (Stored
        [(''/a/a/data.csv'',
          [(''all_fields'', [''a'']), (''fields_to_drop'', []), (''fields_to_window'', [''a''])]),
         (''/a/b/data.csv'',
          [(''all_fields'', [''a'']), (''fields_to_drop'', [''a'']), (''fields_to_window'', [])])])
     ''/x/y/data.csv''
     = Inr (Some \<lparr>all_fields = [''a''], fields_to_window = [''a''], fields_to_drop = []\<rparr>)"
  by (intro conjI; code_simp)

subsection \<open>Saving and loading\<close>

text \<open>
  C7. A classification that was loaded for a path can be saved under that path, and
  loading again returns it; in general, loading after a save under the same path returns
  the classification saved.
\<close>

theorem save_load_identity:
  "(load_fields_setting resolve file p = Inr (Some fs) \<longrightarrow>
      (\<exists>file'. save_fields_setting resolve file p fs = Inr file' \<and>
          load_fields_setting resolve file' p = Inr (Some fs))) \<and>
   (\<forall>file'. save_fields_setting resolve file p fs = Inr file' \<longrightarrow>
      load_fields_setting resolve file' p = Inr (Some fs))"
proof -
  have b: "\<forall>file'. save_fields_setting resolve file p fs = Inr file' \<longrightarrow>
      load_fields_setting resolve file' p = Inr (Some fs)"
    using load_after_save by blast
  have "\<exists>file'. save_fields_setting resolve file p fs = Inr file'"
    if "load_fields_setting resolve file p = Inr (Some fs)"
    using that
    by (auto simp: load_fields_setting_def save_fields_setting_def Let_def split: sum.splits)
  with b show ?thesis by blast
qed

theorem save_load_identity_witness:
  "load_fields_setting id
     (Stored [(''/old/data.csv'',
        to_plain \<lparr>all_fields = [''a'', ''b''], fields_to_window = [''b''], fields_to_drop = []\<rparr>)])
     ''/new/data.csv''
     = Inr (Some \<lparr>all_fields = [''a'', ''b''], fields_to_window = [''b''], fields_to_drop = []\<rparr>) \<and>
   (\<exists>file'. save_fields_setting id
        (Stored [(''/old/data.csv'',
           to_plain \<lparr>all_fields = [''a'', ''b''], fields_to_window = [''b''], fields_to_drop = []\<rparr>)])
        ''/new/data.csv''
        \<lparr>all_fields = [''a'', ''b''], fields_to_window = [''b''], fields_to_drop = []\<rparr> = Inr file' \<and>
      load_fields_setting id file' ''/new/data.csv''
        = Inr (Some \<lparr>all_fields = [''a'', ''b''], fields_to_window = [''b''], fields_to_drop = []\<rparr>))"
proof -
  let ?fs = "\<lparr>all_fields = [''a'', ''b''], fields_to_window = [''b''], fields_to_drop = []\<rparr>"
  let ?file = "Stored [(''/old/data.csv'', to_plain ?fs)]"
  have h: "load_fields_setting id ?file ''/new/data.csv'' = Inr (Some ?fs)" by code_simp
  from save_load_identity [of id ?file "''/new/data.csv''" ?fs] h
  have "\<exists>file'. save_fields_setting id ?file ''/new/data.csv'' ?fs = Inr file' \<and>
      load_fields_setting id file' ''/new/data.csv'' = Inr (Some ?fs)"
    by blast
  with h show ?thesis by (intro conjI)
qed

subsection \<open>What the fallback compares\<close>

text \<open>
  C9. The fallback tests the whole key with \<^verbatim>\<open>endswith\<close>: the key \<open>/a/bdata.csv\<close>, whose
  last component is another file name, is matched by a query for \<open>data.csv\<close> and its
  classification is returned; and of the keys that match, the first one in the iteration
  order of the cache decides the result.
\<close>

theorem suffix_match_whole_key:
  "(resolve p = ''/x/y/data.csv'' \<longrightarrow>
      path_name ''/a/bdata.csv'' \<noteq> path_name (resolve p) \<and>
      load_fields_setting resolve (Stored [(''/a/bdata.csv'', to_plain fs)]) p = Inr (Some fs)) \<and>
   (map_of c (resolve p) = None \<and> c = pre @ (k, v) # post \<and>
    (\<forall>kv \<in> set pre. \<not> endswith (fst kv) (path_name (resolve p))) \<and>
    endswith k (path_name (resolve p)) \<longrightarrow>
      load_fields_setting resolve (Stored c) p =
        (case from_plain v of Inl e \<Rightarrow> Inl e | Inr fs' \<Rightarrow> Inr (Some fs')))"
proof -
  have a: "path_name ''/a/bdata.csv'' \<noteq> path_name (resolve p) \<and>
      load_fields_setting resolve (Stored [(''/a/bdata.csv'', to_plain fs)]) p = Inr (Some fs)"
    if "resolve p = ''/x/y/data.csv''"
    using that
    by (simp add: load_fields_setting_def load_all_cache_def path_name_def endswith_def
        suffix_to_prefix from_plain_to_plain)
  have b: "load_fields_setting resolve (Stored c) p =
        (case from_plain v of Inl e \<Rightarrow> Inl e | Inr fs' \<Rightarrow> Inr (Some fs'))"
    if "map_of c (resolve p) = None" "c = pre @ (k, v) # post"
      "\<forall>kv \<in> set pre. \<not> endswith (fst kv) (path_name (resolve p))"
      "endswith k (path_name (resolve p))"
  proof -
    from that(1) have "load_fields_setting resolve (Stored c) p =
        scan_keys c (path_name (resolve p))"
      by (simp add: load_fields_setting_def load_all_cache_def Let_def)
    also have "\<dots> = (case from_plain v of Inl e \<Rightarrow> Inl e | Inr fs' \<Rightarrow> Inr (Some fs'))"
      unfolding that(2) using that(3,4) by (rule scan_keys_first)
    finally show ?thesis .
  qed
  show ?thesis
  proof (intro conjI impI)
    assume "resolve p = ''/x/y/data.csv''"
    then show "path_name ''/a/bdata.csv'' \<noteq> path_name (resolve p)"
      and "load_fields_setting resolve (Stored [(''/a/bdata.csv'', to_plain fs)]) p = Inr (Some fs)"
      using a by simp_all
  next
    assume "map_of c (resolve p) = None \<and> c = pre @ (k, v) # post \<and>
      (\<forall>kv \<in> set pre. \<not> endswith (fst kv) (path_name (resolve p))) \<and>
      endswith k (path_name (resolve p))"
    then show "load_fields_setting resolve (Stored c) p =
        (case from_plain v of Inl e \<Rightarrow> Inl e | Inr fs' \<Rightarrow> Inr (Some fs'))"
      by (elim conjE) (rule b; assumption)
  qed
qed

theorem suffix_match_whole_key_witness:
  "map_of [(''/p/data.csv'', to_plain \<lparr>all_fields = [''a''], fields_to_window = [], fields_to_drop = []\<rparr>),
           (''/q/data.csv'', to_plain \<lparr>all_fields = [''b''], fields_to_window = [], fields_to_drop = []\<rparr>)]
     (id ''/r/data.csv'') = None \<and>
   endswith ''/p/data.csv'' (path_name (id ''/r/data.csv'')) \<and>
   endswith ''/q/data.csv'' (path_name (id ''/r/data.csv'')) \<and>
   load_fields_setting id
     (Stored [(''/p/data.csv'', to_plain \<lparr>all_fields = [''a''], fields_to_window = [], fields_to_drop = []\<rparr>),
              (''/q/data.csv'', to_plain \<lparr>all_fields = [''b''], fields_to_window = [], fields_to_drop = []\<rparr>)])
     ''/r/data.csv''
     = Inr (Some \<lparr>all_fields = [''a''], fields_to_window = [], fields_to_drop = []\<rparr>)"
proof -
  let ?a = "\<lparr>all_fields = [''a''], fields_to_window = [], fields_to_drop = []\<rparr>"
  let ?b = "\<lparr>all_fields = [''b''], fields_to_window = [], fields_to_drop = []\<rparr>"
  let ?c = "[(''/p/data.csv'', to_plain ?a), (''/q/data.csv'', to_plain ?b)]"
  have h1: "map_of ?c (id ''/r/data.csv'') = None" by simp
  have h2: "?c = [] @ (''/p/data.csv'', to_plain ?a) # [(''/q/data.csv'', to_plain ?b)]" by simp
  have h3: "\<forall>kv \<in> set []. \<not> endswith (fst kv) (path_name (id ''/r/data.csv''))" by simp
  have h4: "endswith ''/p/data.csv'' (path_name (id ''/r/data.csv''))"
    by (simp add: path_name_def endswith_def suffix_to_prefix)
  have h5: "endswith ''/q/data.csv'' (path_name (id ''/r/data.csv''))"
    by (simp add: path_name_def endswith_def suffix_to_prefix)
  from suffix_match_whole_key [of id "''/r/data.csv''" ?a ?c "[]" "''/p/data.csv''" "to_plain ?a"
      "[(''/q/data.csv'', to_plain ?b)]"] h1 h2 h3 h4
  have "load_fields_setting id (Stored ?c) ''/r/data.csv'' =
      (case from_plain (to_plain ?a) of Inl e \<Rightarrow> Inl e | Inr fs' \<Rightarrow> Inr (Some fs'))"
    by blast
  then have "load_fields_setting id (Stored ?c) ''/r/data.csv'' = Inr (Some ?a)"
    by (simp add: from_plain_to_plain)
  with h1 h4 h5 show ?thesis by (intro conjI)
qed

section \<open>The classification session\<close>

lemma go_down_props:
  "s_all_fields (go_down s) = s_all_fields s"
  "s_fields_to_window (go_down s) = s_fields_to_window s"
  "s_fields_to_drop (go_down s) = s_fields_to_drop s"
  "s_fields_to_keep (go_down s) = s_fields_to_keep s"
  "cursor_ok s \<Longrightarrow> cursor_ok (go_down s)"
  by (simp_all add: go_down_def cursor_ok_def)

lemma go_up_props:
  "s_all_fields (go_up s) = s_all_fields s"
  "s_fields_to_window (go_up s) = s_fields_to_window s"
  "s_fields_to_drop (go_up s) = s_fields_to_drop s"
  "s_fields_to_keep (go_up s) = s_fields_to_keep s"
  "cursor_ok s \<Longrightarrow> cursor_ok (go_up s)"
  by (simp_all add: go_up_def cursor_ok_def)

lemma go_down_invariants:
  "covered (go_down s) = covered s" "partition_ok (go_down s) = partition_ok s"
  by (simp_all add: covered_def partition_ok_def go_down_props)

lemma go_up_invariants:
  "covered (go_up s) = covered s" "partition_ok (go_up s) = partition_ok s"
  by (simp_all add: covered_def partition_ok_def go_up_props)

lemma list_index_cursor:
  "cursor_ok s \<Longrightarrow>
     \<exists>f. list_index (s_all_fields s) (current_field_idx s) = Inr f \<and> f \<in> set (s_all_fields s)"
proof -
  assume c: "cursor_ok s"
  then have "nat (current_field_idx s) < length (s_all_fields s)"
    by (simp add: cursor_ok_def nat_less_iff)
  then have "s_all_fields s ! nat (current_field_idx s) \<in> set (s_all_fields s)"
    by (rule nth_mem)
  with c show ?thesis
    by (simp add: list_index_def cursor_ok_def Let_def)
qed

lemma handle_key_step:
  assumes c: "cursor_ok s"
  shows "\<exists>r. handle_key s key = Inr r \<and>
           (\<forall>s'. r = Proceed s' \<longrightarrow>
              cursor_ok s' \<and> s_all_fields s' = s_all_fields s \<and>
              (covered s \<longrightarrow> covered s') \<and> (partition_ok s \<longrightarrow> partition_ok s'))"
proof -
  from list_index_cursor [OF c] obtain f where
    f: "list_index (s_all_fields s) (current_field_idx s) = Inr f" and fin: "f \<in> set (s_all_fields s)"
    by blast
  let ?k = "s\<lparr>s_fields_to_window := s_fields_to_window s - {f},
                  s_fields_to_drop := s_fields_to_drop s - {f},
                  s_fields_to_keep := insert f (s_fields_to_keep s)\<rparr>"
  let ?d = "s\<lparr>s_fields_to_window := s_fields_to_window s - {f},
                  s_fields_to_drop := insert f (s_fields_to_drop s),
                  s_fields_to_keep := s_fields_to_keep s - {f}\<rparr>"
  let ?w = "s\<lparr>s_fields_to_window := insert f (s_fields_to_window s),
                  s_fields_to_drop := s_fields_to_drop s - {f},
                  s_fields_to_keep := s_fields_to_keep s - {f}\<rparr>"
  have ck: "cursor_ok ?k" "cursor_ok ?d" "cursor_ok ?w"
    using c by (simp_all add: cursor_ok_def)
  have cov: "covered s \<Longrightarrow> covered ?k" "covered s \<Longrightarrow> covered ?d" "covered s \<Longrightarrow> covered ?w"
    by (auto simp: covered_def)
  have par: "partition_ok s \<Longrightarrow> partition_ok ?k" "partition_ok s \<Longrightarrow> partition_ok ?d"
    "partition_ok s \<Longrightarrow> partition_ok ?w"
    using fin by (auto simp: partition_ok_def)
  show ?thesis
    using c ck cov par
    by (simp add: handle_key_def f go_down_props go_up_props go_down_invariants go_up_invariants)
qed

lemma draw_fields_covered:
  "set fs \<subseteq> s_fields_to_window s \<union> s_fields_to_drop s \<union> s_fields_to_keep s \<Longrightarrow>
     draw_fields addstr s i fs = Inl e \<Longrightarrow> e = CursesError"
  by (induction fs arbitrary: i) (auto simp: field_flag_def split: if_splits)

lemma redraw_covered: "covered s \<Longrightarrow> redraw addstr s = Inl e \<Longrightarrow> e = CursesError"
  using draw_fields_covered [of "s_all_fields s" s addstr 0 e]
  by (simp add: redraw_def covered_def split: if_splits)

lemma event_loop_step:
  assumes "handle_key s key = Inr (Proceed s1)"
  shows "event_loop addstr s (key # keys) =
           (case redraw addstr s1 of Inl e \<Rightarrow> Inl e | Inr u \<Rightarrow> event_loop addstr s1 keys)"
  by (simp only: event_loop.simps assms sum.case key_result.case)

lemma event_loop_invariant:
  assumes "cursor_ok s" and "event_loop addstr s keys = Inr r" and "outcome_state r = Some s'"
  shows "cursor_ok s' \<and> s_all_fields s' = s_all_fields s \<and>
         (covered s \<longrightarrow> covered s') \<and> (partition_ok s \<longrightarrow> partition_ok s')"
  using assms
proof (induction keys arbitrary: s)
  case Nil
  then have "s' = s" by auto
  with Nil.prems(1) show ?case by simp
next
  case (Cons key keys)
  from handle_key_step [OF Cons.prems(1), of key] obtain r0 where
    r0: "handle_key s key = Inr r0" and
    st: "\<forall>s1. r0 = Proceed s1 \<longrightarrow>
              cursor_ok s1 \<and> s_all_fields s1 = s_all_fields s \<and>
              (covered s \<longrightarrow> covered s1) \<and> (partition_ok s \<longrightarrow> partition_ok s1)"
    by blast
  show ?case
  proof (cases r0)
    case (Proceed s1)
    from st Proceed have c1: "cursor_ok s1" and a1: "s_all_fields s1 = s_all_fields s"
      and v1: "covered s \<longrightarrow> covered s1" and p1: "partition_ok s \<longrightarrow> partition_ok s1"
      by simp_all
    from r0 Proceed have hk: "handle_key s key = Inr (Proceed s1)" by (simp only:)
    from Cons.prems(2) have "event_loop addstr s1 keys = Inr r"
      unfolding event_loop_step [OF hk] by (cases "redraw addstr s1") simp_all
    from Cons.IH [OF c1 this Cons.prems(3)] have
      1: "cursor_ok s'" and 2: "s_all_fields s' = s_all_fields s1"
      and 3: "covered s1 \<longrightarrow> covered s'" and 4: "partition_ok s1 \<longrightarrow> partition_ok s'"
      by simp_all
    from 2 a1 have 5: "s_all_fields s' = s_all_fields s" by (rule trans)
    from v1 3 have 6: "covered s \<longrightarrow> covered s'" by (intro impI) (elim impE)
    from p1 4 have 7: "partition_ok s \<longrightarrow> partition_ok s'" by (intro impI) (elim impE)
    from 1 5 6 7 show ?thesis by (intro conjI)
  next
    case Break
    with Cons.prems(2) r0 have "r = Confirmed s" by simp
    with Cons.prems(3) have "s' = s" by simp
    with Cons.prems(1) show ?thesis by simp
  next
    case Exit
    with Cons.prems(2) r0 have "r = Exited" by simp
    with Cons.prems(3) show ?thesis by simp
  qed
qed

lemma event_loop_errors:
  assumes "cursor_ok s" and "covered s" and "event_loop addstr s keys = Inl e"
  shows "e = CursesError"
  using assms
proof (induction keys arbitrary: s)
  case Nil
  then show ?case by simp
next
  case (Cons key keys)
  from handle_key_step [OF Cons.prems(1), of key] obtain r0 where
    r0: "handle_key s key = Inr r0" and
    st: "\<forall>s1. r0 = Proceed s1 \<longrightarrow>
              cursor_ok s1 \<and> s_all_fields s1 = s_all_fields s \<and>
              (covered s \<longrightarrow> covered s1) \<and> (partition_ok s \<longrightarrow> partition_ok s1)"
    by blast
  show ?case
  proof (cases r0)
    case (Proceed s1)
    from st Proceed Cons.prems(2) have c1: "cursor_ok s1" and v1: "covered s1"
      by simp_all
    from r0 Proceed have hk: "handle_key s key = Inr (Proceed s1)" by (simp only:)
    show ?thesis
    proof (cases "redraw addstr s1")
      case (Inl e1)
      with Cons.prems(3) have "e = e1"
        unfolding event_loop_step [OF hk] by simp
      with redraw_covered [OF v1 Inl] show ?thesis by simp
    next
      case (Inr u)
      with Cons.prems(3) have "event_loop addstr s1 keys = Inl e"
        unfolding event_loop_step [OF hk] by simp
      from Cons.IH [OF c1 v1 this] show ?thesis .
    qed
  next
    case Break
    with Cons.prems(3) r0 show ?thesis by simp
  next
    case Exit
    with Cons.prems(3) r0 show ?thesis by simp
  qed
qed

lemma start_session_invariants:
  "all_fields fs \<noteq> [] \<Longrightarrow> cursor_ok (start_session fs)"
  "covered (start_session fs)"
  "valid_classification fs \<Longrightarrow> partition_ok (start_session fs)"
  "s_all_fields (start_session fs) = all_fields fs"
  by (auto simp: start_session_def cursor_ok_def covered_def partition_ok_def
      valid_classification_def)

lemma configure_started:
  assumes "configure_fields_settings_interactively addstr fs keys = Inr r"
  shows "all_fields fs \<noteq> []" and "event_loop addstr (start_session fs) keys = Inr r"
proof -
  from assms show ne: "all_fields fs \<noteq> []"
    by (auto simp: configure_fields_settings_interactively_def)
  with assms show "event_loop addstr (start_session fs) keys = Inr r"
    by (cases "redraw addstr (start_session fs)")
      (simp_all add: configure_fields_settings_interactively_def)
qed

lemma configure_invariant:
  assumes "configure_fields_settings_interactively addstr fs keys = Inr r"
    and "outcome_state r = Some s'"
  shows "cursor_ok s'" and "s_all_fields s' = all_fields fs" and "covered s'"
    and "valid_classification fs \<Longrightarrow> partition_ok s'"
proof -
  note i = start_session_invariants [of fs]
  note st = configure_started [OF assms(1)]
  note inv = event_loop_invariant [OF i(1) [OF st(1)] st(2) assms(2)]
  from inv show "cursor_ok s'" by (rule conjunct1)
  from inv have "s_all_fields s' = s_all_fields (start_session fs)"
    by (rule conjunct2 [THEN conjunct1])
  then show "s_all_fields s' = all_fields fs" by (simp only: i(4))
  from inv have "covered (start_session fs) \<longrightarrow> covered s'"
    by (rule conjunct2 [THEN conjunct2, THEN conjunct1])
  with i(2) show "covered s'" by (rule rev_mp)
  from inv have p: "partition_ok (start_session fs) \<longrightarrow> partition_ok s'"
    by (rule conjunct2 [THEN conjunct2, THEN conjunct2])
  show "partition_ok s'" if "valid_classification fs"
    using i(3) [OF that] p by (rule rev_mp)
qed

text \<open>
  The exceptions of the loop itself never occur: on a field list that is not empty the
  only error of a session is the one that \<^verbatim>\<open>addstr\<close> raises.
\<close>

lemma configure_errors:
  assumes "all_fields fs \<noteq> []"
    and "configure_fields_settings_interactively addstr fs keys = Inl e"
  shows "e = CursesError"
proof (cases "redraw addstr (start_session fs)")
  case (Inl e1)
  with assms have "e = e1"
    by (simp add: configure_fields_settings_interactively_def)
  with redraw_covered [OF start_session_invariants(2) Inl] show ?thesis by simp
next
  case (Inr u)
  with assms have "event_loop addstr (start_session fs) keys = Inl e"
    by (simp add: configure_fields_settings_interactively_def)
  from event_loop_errors [OF start_session_invariants(1) [OF assms(1)]
      start_session_invariants(2) this]
  show ?thesis .
qed

subsection \<open>The three states of a field\<close>

text \<open>
  C4. In a session started from a classification that satisfies its invariant, the state
  reached after any sequence of keys has the windowed and the dropped set disjoint, both
  subsets of the field list, and every field of the list in exactly one of the windowed,
  the dropped and the kept set.
\<close>

theorem classification_partition:
  assumes "valid_classification fs"
    and "configure_fields_settings_interactively addstr fs keys = Inr r"
    and "outcome_state r = Some s"
  shows "s_all_fields s = all_fields fs \<and>
         s_fields_to_window s \<inter> s_fields_to_drop s = {} \<and>
         s_fields_to_window s \<subseteq> set (s_all_fields s) \<and>
         s_fields_to_drop s \<subseteq> set (s_all_fields s) \<and>
         (\<forall>f \<in> set (s_all_fields s).
            (f \<in> s_fields_to_window s \<and> f \<notin> s_fields_to_drop s \<and> f \<notin> s_fields_to_keep s) \<or>
            (f \<notin> s_fields_to_window s \<and> f \<in> s_fields_to_drop s \<and> f \<notin> s_fields_to_keep s) \<or>
            (f \<notin> s_fields_to_window s \<and> f \<notin> s_fields_to_drop s \<and> f \<in> s_fields_to_keep s))"
proof -
  note c = configure_invariant [OF assms(2,3)]
  from c(4) [OF assms(1)] have
    "s_fields_to_window s \<inter> s_fields_to_drop s = {} \<and>
     s_fields_to_window s \<subseteq> set (s_all_fields s) \<and>
     s_fields_to_drop s \<subseteq> set (s_all_fields s) \<and>
     (\<forall>f \<in> set (s_all_fields s).
        (f \<in> s_fields_to_window s \<and> f \<notin> s_fields_to_drop s \<and> f \<notin> s_fields_to_keep s) \<or>
        (f \<notin> s_fields_to_window s \<and> f \<in> s_fields_to_drop s \<and> f \<notin> s_fields_to_keep s) \<or>
        (f \<notin> s_fields_to_window s \<and> f \<notin> s_fields_to_drop s \<and> f \<in> s_fields_to_keep s))"
    unfolding partition_ok_def by blast
  with c(2) show ?thesis by (rule conjI)
qed

theorem classification_partition_witness:
  "valid_classification
     \<lparr>all_fields = [''a'', ''b''], fields_to_window = [''a''], fields_to_drop = []\<rparr> \<and>
   configure_fields_settings_interactively (\<lambda>h w y text. length text \<le> w)
     \<lparr>all_fields = [''a'', ''b''], fields_to_window = [''a''], fields_to_drop = []\<rparr>
     [ord_d, ord_w, KEY_UP, KEY_UP, ord_k]
     = Inr (Waiting \<lparr>s_all_fields = [''a'', ''b''], s_fields_to_window = {''b''},
         s_fields_to_drop = {}, s_fields_to_keep = {''a''}, current_field_idx = 1\<rparr>) \<and>
   {''b''} \<inter> {} = ({} :: string set)"
proof -
  let ?fs = "\<lparr>all_fields = [''a'', ''b''], fields_to_window = [''a''], fields_to_drop = []\<rparr>"
  let ?keys = "[ord_d, ord_w, KEY_UP, KEY_UP, ord_k]"
  let ?s = "\<lparr>s_all_fields = [''a'', ''b''], s_fields_to_window = {''b''},
         s_fields_to_drop = {}, s_fields_to_keep = {''a''}, current_field_idx = 1\<rparr>"
  have h1: "valid_classification ?fs" by code_simp
  have ev: "configure_fields_settings_interactively (\<lambda>h w y text. length text \<le> w) ?fs ?keys
      = Inr (Waiting ?s)"
    by code_simp
  have h3: "outcome_state (Waiting ?s) = Some ?s" by simp
  from classification_partition [OF h1 ev h3]
  have "s_fields_to_window ?s \<inter> s_fields_to_drop ?s = {}" by (rule conjunct2 [THEN conjunct1])
  then have "{''b''} \<inter> {} = ({} :: string set)" by simp
  with h1 ev show ?thesis by (intro conjI)
qed

subsection \<open>The cursor\<close>

text \<open>
  C8. Moving up with the cursor at index 0 leaves it at 0, moving down with the cursor at
  the last index leaves it there, and in the state that a session reaches after any
  sequence of keys the cursor is an index of the field list.
\<close>

theorem cursor_clamp:
  "(current_field_idx s = 0 \<longrightarrow>
      (\<exists>s'. handle_key s KEY_UP = Inr (Proceed s') \<and> current_field_idx s' = 0)) \<and>
   (current_field_idx s = int (length (s_all_fields s)) - 1 \<longrightarrow>
      (\<exists>s'. handle_key s KEY_DOWN = Inr (Proceed s') \<and>
         current_field_idx s' = int (length (s_all_fields s)) - 1)) \<and>
   (configure_fields_settings_interactively addstr fs keys = Inr r \<and>
    outcome_state r = Some s'' \<longrightarrow>
      0 \<le> current_field_idx s'' \<and>
      current_field_idx s'' \<le> int (length (all_fields fs)) - 1)"
proof -
  have a: "\<exists>s'. handle_key s KEY_UP = Inr (Proceed s') \<and> current_field_idx s' = 0"
    if "current_field_idx s = 0"
    using that by (simp add: handle_key_def go_up_def KEY_UP_def KEY_DOWN_def)
  have b: "\<exists>s'. handle_key s KEY_DOWN = Inr (Proceed s') \<and>
         current_field_idx s' = int (length (s_all_fields s)) - 1"
    if "current_field_idx s = int (length (s_all_fields s)) - 1"
    using that by (simp add: handle_key_def go_down_def)
  have c: "0 \<le> current_field_idx s'' \<and>
      current_field_idx s'' \<le> int (length (all_fields fs)) - 1"
    if "configure_fields_settings_interactively addstr fs keys = Inr r \<and>
        outcome_state r = Some s''"
  proof -
    from that have 1: "configure_fields_settings_interactively addstr fs keys = Inr r"
      and 2: "outcome_state r = Some s''"
      by (rule conjunct1, rule conjunct2)
    note i = configure_invariant [OF 1 2]
    from i(1) i(2) show ?thesis by (simp add: cursor_ok_def)
  qed
  show ?thesis
  proof (intro conjI impI)
    assume "current_field_idx s = 0"
    then show "\<exists>s'. handle_key s KEY_UP = Inr (Proceed s') \<and> current_field_idx s' = 0"
      by (rule a)
  next
    assume "current_field_idx s = int (length (s_all_fields s)) - 1"
    then show "\<exists>s'. handle_key s KEY_DOWN = Inr (Proceed s') \<and>
         current_field_idx s' = int (length (s_all_fields s)) - 1"
      by (rule b)
  next
    assume h: "configure_fields_settings_interactively addstr fs keys = Inr r \<and>
        outcome_state r = Some s''"
    from c [OF h] show "0 \<le> current_field_idx s''" by (rule conjunct1)
    from c [OF h] show "current_field_idx s'' \<le> int (length (all_fields fs)) - 1"
      by (rule conjunct2)
  qed
qed

theorem cursor_clamp_witness:
  "current_field_idx \<lparr>s_all_fields = [''a'', ''b''], s_fields_to_window = {},
      s_fields_to_drop = {}, s_fields_to_keep = {''a'', ''b''}, current_field_idx = 0\<rparr> = 0 \<and>
   handle_key \<lparr>s_all_fields = [''a'', ''b''], s_fields_to_window = {},
      s_fields_to_drop = {}, s_fields_to_keep = {''a'', ''b''}, current_field_idx = 0\<rparr> KEY_UP
     = Inr (Proceed \<lparr>s_all_fields = [''a'', ''b''], s_fields_to_window = {},
         s_fields_to_drop = {}, s_fields_to_keep = {''a'', ''b''}, current_field_idx = 0\<rparr>) \<and>
   handle_key \<lparr>s_all_fields = [''a'', ''b''], s_fields_to_window = {},
      s_fields_to_drop = {}, s_fields_to_keep = {''a'', ''b''}, current_field_idx = 1\<rparr> KEY_DOWN
     = Inr (Proceed \<lparr>s_all_fields = [''a'', ''b''], s_fields_to_window = {},
         s_fields_to_drop = {}, s_fields_to_keep = {''a'', ''b''}, current_field_idx = 1\<rparr>) \<and>
   configure_fields_settings_interactively (\<lambda>h w y text. length text \<le> w)
     \<lparr>all_fields = [''a'', ''b''], fields_to_window = [], fields_to_drop = []\<rparr>
     [KEY_UP, KEY_DOWN, KEY_DOWN, KEY_DOWN]
     = Inr (Waiting \<lparr>s_all_fields = [''a'', ''b''], s_fields_to_window = {},
         s_fields_to_drop = {}, s_fields_to_keep = {''a'', ''b''}, current_field_idx = 1\<rparr>)"
proof -
  let ?s0 = "\<lparr>s_all_fields = [''a'', ''b''], s_fields_to_window = {},
      s_fields_to_drop = {}, s_fields_to_keep = {''a'', ''b''}, current_field_idx = 0\<rparr>"
  let ?s1 = "\<lparr>s_all_fields = [''a'', ''b''], s_fields_to_window = {},
      s_fields_to_drop = {}, s_fields_to_keep = {''a'', ''b''}, current_field_idx = 1\<rparr>"
  let ?fs = "\<lparr>all_fields = [''a'', ''b''], fields_to_window = [], fields_to_drop = []\<rparr>"
  let ?keys = "[KEY_UP, KEY_DOWN, KEY_DOWN, KEY_DOWN]"
  have h0: "current_field_idx ?s0 = 0" by simp
  from cursor_clamp [of ?s0 "\<lambda>h w y text. length text \<le> w" ?fs ?keys "Waiting ?s1" ?s1] h0
  obtain s' where u: "handle_key ?s0 KEY_UP = Inr (Proceed s')" by blast
  have up: "handle_key ?s0 KEY_UP = Inr (Proceed ?s0)"
    by (simp add: handle_key_def go_up_def KEY_UP_def KEY_DOWN_def)
  have down: "handle_key ?s1 KEY_DOWN = Inr (Proceed ?s1)"
    by (simp add: handle_key_def go_down_def)
  have ev: "configure_fields_settings_interactively (\<lambda>h w y text. length text \<le> w) ?fs ?keys
      = Inr (Waiting ?s1)"
    by code_simp
  from u up have "s' = ?s0" by simp
  with h0 up down ev show ?thesis by (intro conjI)
qed

end
